theory Spec2Isabelle
  imports Main "HOL-Library.Signed_Division"
begin

section \<open>The open-addressing hash table of libhash\<close>

text \<open>
  The development embeds \<^verbatim>\<open>src/hash_table.c\<close> and the declarations of
  \<^verbatim>\<open>include/libhash.h\<close>. The table's contents are modelled, the allocator is not:
  \<^verbatim>\<open>ht_entry_init\<close> builds an entry value, \<^verbatim>\<open>ht_delete_entry\<close> and the
  \<^verbatim>\<open>free_value\<close> flag, which only selects whether a value's storage is handed back,
  have no counterpart, so \<^verbatim>\<open>ht_insert\<close> and \<^verbatim>\<open>ht_insert_ptr\<close> (and the two
  deletes) are one function of the contents each.

  Two functions that the file calls are declared in headers outside the sources at hand:
  \<^verbatim>\<open>h_resolve_hash (key, capacity, attempt)\<close> of \<^verbatim>\<open>hash.h\<close> and
  \<^verbatim>\<open>next_prime (n)\<close> of \<^verbatim>\<open>prime.h\<close>. Every operation takes them as the
  parameters \<open>h\<close> and \<open>np\<close>.
\<close>

subsection \<open>Data\<close>

text \<open>
  \<^verbatim>\<open>ht_entry\<close>: a key (a C string, compared with \<^verbatim>\<open>strcmp\<close>) and a value of type
  \<^verbatim>\<open>void *\<close>, which may be the null pointer: \<open>None\<close>.
\<close>

record 'v ht_entry =
  key :: string
  val :: "'v option"

text \<open>
  One cell of \<^verbatim>\<open>ht->entries\<close>: the null pointer, the address of the shared
  \<^verbatim>\<open>HT_SENTINEL_ENTRY\<close> that a deletion leaves behind, or a pointer to an allocated entry.
\<close>

datatype 'v slot = Null | Sentinel | Entry "'v ht_entry"

record 'v hash_table =
  capacity :: int
  base_capacity :: int
  count :: int
  entries :: "'v slot list"

text \<open>
  What C leaves undefined is a fault of the model: a division by a capacity of zero and a read
  or write of \<^verbatim>\<open>ht->entries\<close> outside the array. A result is \<open>None\<close> when the
  call does not return, \<open>Some (Inl f)\<close> when it faults and \<open>Some (Inr x)\<close> when it
  returns \<open>x\<close>.
\<close>

datatype fault = DivByZero | OutOfBounds

type_synonym 'a outcome = "(fault + 'a) option"

type_synonym probe = "string \<Rightarrow> int \<Rightarrow> int \<Rightarrow> int"

type_synonym sizer = "int \<Rightarrow> int"

definition HT_DEFAULT_CAPACITY :: int where
  "HT_DEFAULT_CAPACITY = 50"

text \<open>
  The fields \<^verbatim>\<open>capacity\<close>, \<^verbatim>\<open>base_capacity\<close> and \<^verbatim>\<open>count\<close> are C
  \<^verbatim>\<open>int\<close>s of 32 bits. The file multiplies two of them, \<^verbatim>\<open>ht->count * 100\<close> and
  \<^verbatim>\<open>ht->base_capacity * 2\<close>, and a product outside the range of \<^verbatim>\<open>int\<close> is what C
  leaves undefined and the compiled code computes modulo \<open>2 ^ 32\<close>: \<open>int32 x\<close> is the
  \<^verbatim>\<open>int\<close> that holds the low 32 bits of \<open>x\<close>. From \<open>count = 21474837\<close> on,
  \<open>int32 (count * 100)\<close> is not \<open>count * 100\<close> any more. The other arithmetic of the
  file on \<^verbatim>\<open>int\<close>s, the steps by one of \<^verbatim>\<open>count\<close> and of the attempt counter
  of a walk, is exact in the model: it takes \<open>2 ^ 31\<close> entries, or a walk of
  \<open>2 ^ 31\<close> probes, to leave the range.
\<close>

definition int32 :: "int \<Rightarrow> int" where
  "int32 x = (x + 2 ^ 31) mod 2 ^ 32 - 2 ^ 31"

subsection \<open>Operations\<close>

definition ht_entry_init :: "string \<Rightarrow> 'v option \<Rightarrow> 'v ht_entry" where
  "ht_entry_init k v = \<lparr>key = k, val = v\<rparr>"

text \<open>\<^verbatim>\<open>ht_init\<close>: \<^verbatim>\<open>calloc\<close> yields \<open>capacity\<close> null cells.\<close>

definition ht_init :: "sizer \<Rightarrow> int \<Rightarrow> 'v hash_table" where
  "ht_init np base_capacity0 =
     (let base_capacity1 = (if base_capacity0 = 0 then HT_DEFAULT_CAPACITY else base_capacity0);
          capacity1 = np base_capacity1
      in \<lparr>capacity = capacity1, base_capacity = base_capacity1, count = 0,
          entries = replicate (nat capacity1) Null\<rparr>)"

text \<open>
  \<^verbatim>\<open>const int load = ht->count * 100 / ht->capacity\<close>, the first statement of
  \<^verbatim>\<open>__ht_insert\<close> and of \<^verbatim>\<open>__ht_delete\<close>: an \<^verbatim>\<open>int\<close> product and C's
  division, which truncates towards zero. With a capacity of zero the division is a fault,
  which the two functions below return before they look at the load.
\<close>

definition load :: "'v hash_table \<Rightarrow> int" where
  "load ht = int32 (count ht * 100) sdiv capacity ht"

text \<open>
  The \<^verbatim>\<open>while\<close> loop of \<^verbatim>\<open>ht_search\<close>. \<open>idx\<close> is the cell being looked at,
  \<open>i\<close> the attempt that the next call of \<^verbatim>\<open>h_resolve_hash\<close> gets. The loop ends
  at a null cell and at the sentinel alike.
\<close>

partial_function (option) ht_search_loop ::
  "probe \<Rightarrow> 'v hash_table \<Rightarrow> string \<Rightarrow> int \<Rightarrow> int \<Rightarrow> 'v ht_entry option outcome"
where
  "ht_search_loop h ht k idx i =
     (if idx < 0 \<or> int (length (entries ht)) \<le> idx then Some (Inl OutOfBounds)
      else case entries ht ! nat idx of
             Null \<Rightarrow> Some (Inr None)
           | Sentinel \<Rightarrow> Some (Inr None)
           | Entry current_entry \<Rightarrow>
               if key current_entry = k then Some (Inr (Some current_entry))
               else ht_search_loop h ht k (h k (capacity ht) i) (i + 1))"

definition ht_search :: "probe \<Rightarrow> 'v hash_table \<Rightarrow> string \<Rightarrow> 'v ht_entry option outcome" where
  "ht_search h ht k = ht_search_loop h ht k (h k (capacity ht) 0) 1"

text \<open>\<^verbatim>\<open>ht_get\<close>: \<^verbatim>\<open>r ? r->value : NULL\<close>.\<close>

definition ht_get :: "probe \<Rightarrow> 'v hash_table \<Rightarrow> string \<Rightarrow> 'v option outcome" where
  "ht_get h ht k =
     (case ht_search h ht k of
        None \<Rightarrow> None
      | Some (Inl f) \<Rightarrow> Some (Inl f)
      | Some (Inr None) \<Rightarrow> Some (Inr None)
      | Some (Inr (Some r)) \<Rightarrow> Some (Inr (val r)))"

text \<open>
  The loop of \<^verbatim>\<open>__ht_insert\<close>, entered with the new entry built. A cell holding the key
  is overwritten and the count kept; a null cell or the sentinel ends the loop, takes the new
  entry and the count goes up.
\<close>

partial_function (option) ht_insert_loop ::
  "probe \<Rightarrow> 'v hash_table \<Rightarrow> 'v ht_entry \<Rightarrow> int \<Rightarrow> int \<Rightarrow> 'v hash_table outcome"
where
  "ht_insert_loop h ht new_entry idx i =
     (if idx < 0 \<or> int (length (entries ht)) \<le> idx then Some (Inl OutOfBounds)
      else case entries ht ! nat idx of
             Null \<Rightarrow>
               Some (Inr (ht\<lparr>entries := (entries ht)[nat idx := Entry new_entry],
                              count := count ht + 1\<rparr>))
           | Sentinel \<Rightarrow>
               Some (Inr (ht\<lparr>entries := (entries ht)[nat idx := Entry new_entry],
                              count := count ht + 1\<rparr>))
           | Entry current_entry \<Rightarrow>
               if key current_entry = key new_entry
               then Some (Inr (ht\<lparr>entries := (entries ht)[nat idx := Entry new_entry]\<rparr>))
               else ht_insert_loop h ht new_entry (h (key new_entry) (capacity ht) i) (i + 1))"

text \<open>
  \<^verbatim>\<open>__ht_insert\<close> and \<^verbatim>\<open>ht_resize\<close> call each other: an insertion into a table
  loaded above 70 resizes it first, and a resize inserts every entry of the old array into a
  fresh table. The first argument \<open>n\<close> bounds how deep resizes may nest: a resize that would
  start below depth \<open>n\<close> gives \<open>None\<close>. \<^verbatim>\<open>ht_resize_up\<close> is the call with the
  \<^verbatim>\<open>int\<close> product \<^verbatim>\<open>ht->base_capacity * 2\<close>. The parameter \<open>ht\<close> is the table pointed to, so the guard
  \<^verbatim>\<open>ht == NULL\<close> of \<^verbatim>\<open>__ht_insert\<close>, which returns at once, has no case here.

  The loop of \<^verbatim>\<open>ht_resize\<close> counts an \<^verbatim>\<open>unsigned int\<close> up to the capacity, which
  a negative capacity turns into a number above every array length. At its end the four fields
  of \<open>ht\<close> are those of the new table.
\<close>

fun ht_insert_raw ::
    "probe \<Rightarrow> sizer \<Rightarrow> nat \<Rightarrow> 'v hash_table \<Rightarrow> string \<Rightarrow> 'v option \<Rightarrow> 'v hash_table outcome"
  and ht_resize_up :: "probe \<Rightarrow> sizer \<Rightarrow> nat \<Rightarrow> 'v hash_table \<Rightarrow> 'v hash_table outcome"
  and ht_resize :: "probe \<Rightarrow> sizer \<Rightarrow> nat \<Rightarrow> 'v hash_table \<Rightarrow> int \<Rightarrow> 'v hash_table outcome"
where
  "ht_insert_raw h np n ht k v =
     (if capacity ht = 0 then Some (Inl DivByZero)
      else
        case (if 70 < load ht
              then ht_resize_up h np n ht
              else Some (Inr ht)) of
          None \<Rightarrow> None
        | Some (Inl f) \<Rightarrow> Some (Inl f)
        | Some (Inr ht1) \<Rightarrow>
            ht_insert_loop h ht1 (ht_entry_init k v) (h k (capacity ht1) 0) 1)"
| "ht_resize_up h np n ht = ht_resize h np n ht (int32 (base_capacity ht * 2))"
| "ht_resize h np 0 ht new_base = (if new_base < 0 then Some (Inr ht) else None)"
| "ht_resize h np (Suc n) ht new_base =
     (if new_base < 0 then Some (Inr ht)
      else
        case fold (\<lambda>i acc.
                     case acc of
                       None \<Rightarrow> None
                     | Some (Inl f) \<Rightarrow> Some (Inl f)
                     | Some (Inr new_ht) \<Rightarrow>
                         if length (entries ht) \<le> i then Some (Inl OutOfBounds)
                         else (case entries ht ! i of
                                 Entry r \<Rightarrow> ht_insert_raw h np n new_ht (key r) (val r)
                               | _ \<Rightarrow> Some (Inr new_ht)))
                  [0 ..< nat (if capacity ht < 0 then 2 ^ 32 + capacity ht else capacity ht)]
                  (Some (Inr (ht_init np new_base))) of
          None \<Rightarrow> None
        | Some (Inl f) \<Rightarrow> Some (Inl f)
        | Some (Inr new_ht) \<Rightarrow>
            Some (Inr (ht\<lparr>base_capacity := base_capacity new_ht, count := count new_ht,
                           capacity := capacity new_ht, entries := entries new_ht\<rparr>)))"

definition ht_resize_down :: "probe \<Rightarrow> sizer \<Rightarrow> nat \<Rightarrow> 'v hash_table \<Rightarrow> 'v hash_table outcome" where
  "ht_resize_down h np n ht = ht_resize h np n ht (base_capacity ht sdiv 2)"

text \<open>
  The loop of \<^verbatim>\<open>__ht_delete\<close>; \<open>i\<close> is the attempt of the cell being looked at,
  incremented before the next probe. The result carries the table and the returned
  \<^verbatim>\<open>int\<close>.
\<close>

partial_function (option) ht_delete_loop ::
  "probe \<Rightarrow> 'v hash_table \<Rightarrow> string \<Rightarrow> int \<Rightarrow> int \<Rightarrow> ('v hash_table \<times> int) outcome"
where
  "ht_delete_loop h ht k idx i =
     (if idx < 0 \<or> int (length (entries ht)) \<le> idx then Some (Inl OutOfBounds)
      else case entries ht ! nat idx of
             Null \<Rightarrow> Some (Inr (ht, 0))
           | Sentinel \<Rightarrow> Some (Inr (ht, 0))
           | Entry current_entry \<Rightarrow>
               if key current_entry = k
               then Some (Inr (ht\<lparr>entries := (entries ht)[nat idx := Sentinel],
                                   count := count ht - 1\<rparr>, 1))
               else ht_delete_loop h ht k (h k (capacity ht) (i + 1)) (i + 1))"

definition ht_delete_raw ::
  "probe \<Rightarrow> sizer \<Rightarrow> nat \<Rightarrow> 'v hash_table \<Rightarrow> string \<Rightarrow> ('v hash_table \<times> int) outcome"
where
  "ht_delete_raw h np n ht k =
     (if capacity ht = 0 then Some (Inl DivByZero)
      else
        case (if load ht < 10
              then ht_resize_down h np n ht
              else Some (Inr ht)) of
          None \<Rightarrow> None
        | Some (Inl f) \<Rightarrow> Some (Inl f)
        | Some (Inr ht1) \<Rightarrow> ht_delete_loop h ht1 k (h k (capacity ht1) 0) 0)"

text \<open>The entry points of the header.\<close>

definition ht_insert ::
  "probe \<Rightarrow> sizer \<Rightarrow> nat \<Rightarrow> 'v hash_table \<Rightarrow> string \<Rightarrow> 'v option \<Rightarrow> 'v hash_table outcome"
where
  "ht_insert h np n ht k v = ht_insert_raw h np n ht k v"

definition ht_delete ::
  "probe \<Rightarrow> sizer \<Rightarrow> nat \<Rightarrow> 'v hash_table \<Rightarrow> string \<Rightarrow> ('v hash_table \<times> int) outcome"
where
  "ht_delete h np n ht k = ht_delete_raw h np n ht k"

declare ht_search_loop.simps [code] ht_insert_loop.simps [code] ht_delete_loop.simps [code]

declare ht_insert_raw.simps [simp del] ht_resize.simps [simp del] ht_resize_up.simps [simp del]

text \<open>Running one call after another: a call that does not return or faults ends the run.\<close>

definition and_then :: "'a outcome \<Rightarrow> ('a \<Rightarrow> 'b outcome) \<Rightarrow> 'b outcome" where
  "and_then r f = (case r of None \<Rightarrow> None | Some (Inl e) \<Rightarrow> Some (Inl e) | Some (Inr x) \<Rightarrow> f x)"

subsection \<open>Sample collaborators\<close>

text \<open>
  Modelled from the spec: \<^verbatim>\<open>h_resolve_hash\<close> (\<^verbatim>\<open>hash.h\<close>) is not among the sources.
  The spec asks of the probe-index function that it maps a key, a capacity and an attempt
  to a slot index in \<open>[0, capacity)\<close>, deterministically, with a sequence that covers all
  slots. \<open>h_linear\<close> is one such function, used where a theorem is run on concrete keys: the
  sum of the key's bytes plus the attempt, modulo the capacity.
\<close>

definition key_sum :: "string \<Rightarrow> int" where
  "key_sum k = sum_list (map of_char k)"

definition h_linear :: probe where
  "h_linear k c a = (key_sum k + a) mod c"

text \<open>
  Modelled from the spec: \<^verbatim>\<open>next_prime\<close> (\<^verbatim>\<open>prime.h\<close>) is not among the sources.
  The spec describes the capacity sizer as returning the smallest usable capacity at least as
  large as the request, conventionally the next prime at or above it. The search below goes
  from the request to its double (to 2 for a request below 2).
\<close>

definition is_prime :: "int \<Rightarrow> bool" where
  "is_prime x \<longleftrightarrow> 2 \<le> x \<and> list_all (\<lambda>d. x mod d \<noteq> 0) [2 .. x - 1]"

definition next_prime :: sizer where
  "next_prime x = (case find is_prime [x .. max 2 (2 * x)] of Some p \<Rightarrow> p | None \<Rightarrow> 2)"

subsection \<open>Notions for stating properties\<close>

text \<open>
  A loop of the three walks goes on at a cell exactly when the cell holds an entry with another
  key: \<open>other k\<close>. \<open>cell h ht k a\<close> is the cell of attempt \<open>a\<close>, and
  \<open>probe_stops h ht k a\<close> says that the walk for \<open>k\<close> stays inside the array and ends at
  attempt \<open>a\<close>, not before.
\<close>

definition other :: "string \<Rightarrow> 'v slot \<Rightarrow> bool" where
  "other k s = (case s of Entry e \<Rightarrow> key e \<noteq> k | _ \<Rightarrow> False)"

definition is_entry :: "'v slot \<Rightarrow> bool" where
  "is_entry s = (case s of Entry e \<Rightarrow> True | _ \<Rightarrow> False)"

definition cell :: "probe \<Rightarrow> 'v hash_table \<Rightarrow> string \<Rightarrow> nat \<Rightarrow> int" where
  "cell h ht k a = h k (capacity ht) (int a)"

definition probe_stops :: "probe \<Rightarrow> 'v hash_table \<Rightarrow> string \<Rightarrow> nat \<Rightarrow> bool" where
  "probe_stops h ht k a \<longleftrightarrow>
     (\<forall>b\<le>a. 0 \<le> cell h ht k b \<and> cell h ht k b < int (length (entries ht))) \<and>
     (\<forall>b<a. other k (entries ht ! nat (cell h ht k b))) \<and>
     \<not> other k (entries ht ! nat (cell h ht k a))"

text \<open>The number of cells that hold an entry, and the entries held.\<close>

definition occupied :: "'v hash_table \<Rightarrow> nat" where
  "occupied ht = length (filter is_entry (entries ht))"

definition entry_set :: "'v hash_table \<Rightarrow> 'v ht_entry set" where
  "entry_set ht = {e. Entry e \<in> set (entries ht)}"

text \<open>
  What the insertion loop leaves when it ends at cell \<open>p\<close>, and what the deletion loop
  leaves and returns there.
\<close>

definition ht_put :: "'v hash_table \<Rightarrow> nat \<Rightarrow> 'v ht_entry \<Rightarrow> 'v hash_table" where
  "ht_put ht p e =
     ht\<lparr>entries := (entries ht)[p := Entry e],
        count := (if is_entry (entries ht ! p) then count ht else count ht + 1)\<rparr>"

definition ht_unput :: "'v hash_table \<Rightarrow> nat \<Rightarrow> 'v hash_table \<times> int" where
  "ht_unput ht p =
     (if is_entry (entries ht ! p)
      then (ht\<lparr>entries := (entries ht)[p := Sentinel], count := count ht - 1\<rparr>, 1)
      else (ht, 0))"

text \<open>
  Invariants of the data model: the array has \<open>capacity\<close> cells and \<open>count\<close> is the
  number of entries (\<open>ht_wf\<close>); no key is held twice (\<open>keys_distinct\<close>); every entry is
  met by the walk for its own key (\<open>reachable\<close>).
\<close>

definition ht_wf :: "'v hash_table \<Rightarrow> bool" where
  "ht_wf ht \<longleftrightarrow> capacity ht = int (length (entries ht)) \<and> count ht = int (occupied ht)"

definition keys_distinct :: "'v hash_table \<Rightarrow> bool" where
  "keys_distinct ht \<longleftrightarrow>
     (\<forall>i<length (entries ht). \<forall>j<length (entries ht). \<forall>e e'.
        entries ht ! i = Entry e \<longrightarrow> entries ht ! j = Entry e' \<longrightarrow> key e = key e' \<longrightarrow> i = j)"

definition reachable :: "probe \<Rightarrow> 'v hash_table \<Rightarrow> bool" where
  "reachable h ht \<longleftrightarrow>
     (\<forall>i<length (entries ht). \<forall>e. entries ht ! i = Entry e \<longrightarrow>
        (\<exists>a. probe_stops h ht (key e) a \<and> nat (cell h ht (key e) a) = i))"

text \<open>
  What the spec asks of the probe-index function, at capacity \<open>c\<close>: indices inside the
  array, and a sequence that meets every cell.
\<close>

definition probe_covers :: "probe \<Rightarrow> int \<Rightarrow> bool" where
  "probe_covers h c \<longleftrightarrow>
     (\<forall>k a. 0 \<le> a \<longrightarrow> 0 \<le> h k c a \<and> h k c a < c) \<and>
     (\<forall>k j. 0 \<le> j \<longrightarrow> j < c \<longrightarrow> (\<exists>a::nat. h k c (int a) = j))"

text \<open>
  The base capacity that \<^verbatim>\<open>ht_init\<close> works with. \<open>resize_ready\<close> collects what makes a
  resize to base \<open>b\<close> return without a nested resize: a sizer result that is positive and
  covered by the probe, an old table with distinct keys and a full-length array, and a load
  of the new table that stays at or below 70 while the entries move. \<open>walk_ready\<close> is the
  same for an operation that resizes to \<open>b\<close> when \<open>trigger\<close> holds and then walks the
  table: after a resize, or without one, a cell without an entry is left.
\<close>

definition eff_base :: "int \<Rightarrow> int" where
  "eff_base b = (if b = 0 then HT_DEFAULT_CAPACITY else b)"

definition resize_ready :: "probe \<Rightarrow> sizer \<Rightarrow> 'v hash_table \<Rightarrow> int \<Rightarrow> bool" where
  "resize_ready h np ht b \<longleftrightarrow>
     0 \<le> b \<and> 0 < np (eff_base b) \<and> probe_covers h (np (eff_base b)) \<and>
     keys_distinct ht \<and> capacity ht = int (length (entries ht)) \<and>
     (int (occupied ht) - 1) * 100 sdiv np (eff_base b) \<le> 70"

definition walk_ready :: "probe \<Rightarrow> sizer \<Rightarrow> 'v hash_table \<Rightarrow> bool \<Rightarrow> int \<Rightarrow> bool" where
  "walk_ready h np ht trigger b \<longleftrightarrow>
     (if trigger
      then resize_ready h np ht b \<and> int (occupied ht) < np (eff_base b)
      else probe_covers h (capacity ht) \<and> occupied ht < length (entries ht))"

definition insert_ready :: "probe \<Rightarrow> sizer \<Rightarrow> 'v hash_table \<Rightarrow> bool" where
  "insert_ready h np ht \<longleftrightarrow>
     walk_ready h np ht (70 < load ht) (int32 (base_capacity ht * 2))"

definition delete_ready :: "probe \<Rightarrow> sizer \<Rightarrow> 'v hash_table \<Rightarrow> bool" where
  "delete_ready h np ht \<longleftrightarrow>
     capacity ht \<noteq> 0 \<and>
     walk_ready h np ht (load ht < 10) (base_capacity ht sdiv 2)"

definition shrink_ready :: "probe \<Rightarrow> sizer \<Rightarrow> 'v hash_table \<Rightarrow> bool" where
  "shrink_ready h np ht \<longleftrightarrow>
     capacity ht \<noteq> 0 \<and>
     (load ht < 10 \<longrightarrow>
        resize_ready h np ht (base_capacity ht sdiv 2))"

text \<open>
  Two keys that collide in a table of \<^verbatim>\<open>ht_init (4)\<close> when the sizer gives 5 cells: the
  same first cell, and a second cell of \<open>k2\<close> that differs from it, both inside the array.
  \<open>tombstoned\<close> is the table after inserting both and deleting the first.
\<close>

definition collided :: "probe \<Rightarrow> sizer \<Rightarrow> string \<Rightarrow> string \<Rightarrow> bool" where
  "collided h np k1 k2 \<longleftrightarrow>
     np 4 = 5 \<and> k1 \<noteq> k2 \<and> h k1 5 0 = h k2 5 0 \<and>
     0 \<le> h k2 5 0 \<and> h k2 5 0 < 5 \<and> 0 \<le> h k2 5 1 \<and> h k2 5 1 < 5 \<and>
     h k2 5 1 \<noteq> h k2 5 0"

definition tombstoned :: "probe \<Rightarrow> string \<Rightarrow> 'v option \<Rightarrow> 'v hash_table" where
  "tombstoned h k2 v2 =
     \<lparr>capacity = 5, base_capacity = 4, count = 1,
      entries = (replicate 5 Null)[nat (h k2 5 0) := Sentinel,
                                   nat (h k2 5 1) := Entry (ht_entry_init k2 v2)]\<rparr>"

text \<open>No cell holds an entry with the key.\<close>

definition key_absent :: "'v hash_table \<Rightarrow> string \<Rightarrow> bool" where
  "key_absent ht k \<longleftrightarrow> (\<forall>x\<in>entry_set ht. key x \<noteq> k)"

text \<open>
  A walk for \<open>k\<close> that can never end: the probe stays inside the array at every attempt
  from 0 on, and every cell holds an entry with another key.
\<close>

definition trapped :: "probe \<Rightarrow> 'v hash_table \<Rightarrow> string \<Rightarrow> bool" where
  "trapped h ht k \<longleftrightarrow>
     (\<forall>a\<ge>0. 0 \<le> h k (capacity ht) a \<and> h k (capacity ht) a < int (length (entries ht))) \<and>
     (\<forall>j<length (entries ht). other k (entries ht ! j))"

section \<open>The walks\<close>


lemma search_loop_run:
  assumes "probe_stops h ht k a" "j \<le> a"
  shows "ht_search_loop h ht k (cell h ht k j) (int j + 1) =
         Some (Inr (case entries ht ! nat (cell h ht k a) of Entry e \<Rightarrow> Some e | _ \<Rightarrow> None))"
  using assms(2)
proof (induction "a - j" arbitrary: j)
  case 0
  then have "j = a" by simp
  with assms(1) show ?case
    by (subst ht_search_loop.simps)
       (auto simp: probe_stops_def other_def split: slot.splits)
next
  case (Suc d)
  then have lt: "j < a" and d: "d = a - Suc j" and le: "Suc j \<le> a" by simp_all
  from assms(1) lt have rng: "0 \<le> cell h ht k j" "cell h ht k j < int (length (entries ht))"
    and oth: "other k (entries ht ! nat (cell h ht k j))"
    by (auto simp: probe_stops_def)
  have nxt: "h k (capacity ht) (int j + 1) = cell h ht k (Suc j)"
    by (simp add: cell_def add.commute)
  from Suc.hyps(1) [OF d le] rng oth nxt show ?case
    by (subst ht_search_loop.simps)
       (auto simp: other_def add.commute split: slot.splits)
qed


lemma insert_loop_run:
  assumes "probe_stops h ht (key e) a" "j \<le> a"
  shows "ht_insert_loop h ht e (cell h ht (key e) j) (int j + 1) =
         Some (Inr (ht_put ht (nat (cell h ht (key e) a)) e))"
  using assms(2)
proof (induction "a - j" arbitrary: j)
  case 0
  then have "j = a" by simp
  with assms(1) show ?case
    by (subst ht_insert_loop.simps)
       (auto simp: probe_stops_def other_def ht_put_def is_entry_def split: slot.splits)
next
  case (Suc d)
  then have lt: "j < a" and d: "d = a - Suc j" and le: "Suc j \<le> a" by simp_all
  from assms(1) lt have rng: "0 \<le> cell h ht (key e) j" "cell h ht (key e) j < int (length (entries ht))"
    and oth: "other (key e) (entries ht ! nat (cell h ht (key e) j))"
    by (auto simp: probe_stops_def)
  have nxt: "h (key e) (capacity ht) (int j + 1) = cell h ht (key e) (Suc j)"
    by (simp add: cell_def add.commute)
  from Suc.hyps(1) [OF d le] rng oth nxt show ?case
    by (subst ht_insert_loop.simps)
       (auto simp: other_def add.commute split: slot.splits)
qed

lemma delete_loop_run:
  assumes "probe_stops h ht k a" "j \<le> a"
  shows "ht_delete_loop h ht k (cell h ht k j) (int j) =
         Some (Inr (ht_unput ht (nat (cell h ht k a))))"
  using assms(2)
proof (induction "a - j" arbitrary: j)
  case 0
  then have "j = a" by simp
  with assms(1) show ?case
    by (subst ht_delete_loop.simps)
       (auto simp: probe_stops_def other_def ht_unput_def is_entry_def split: slot.splits)
next
  case (Suc d)
  then have lt: "j < a" and d: "d = a - Suc j" and le: "Suc j \<le> a" by simp_all
  from assms(1) lt have rng: "0 \<le> cell h ht k j" "cell h ht k j < int (length (entries ht))"
    and oth: "other k (entries ht ! nat (cell h ht k j))"
    by (auto simp: probe_stops_def)
  have nxt: "h k (capacity ht) (int j + 1) = cell h ht k (Suc j)"
    by (simp add: cell_def add.commute)
  from Suc.hyps(1) [OF d le] rng oth nxt show ?case
    by (subst ht_delete_loop.simps)
       (auto simp: other_def add.commute split: slot.splits)
qed

lemma ht_search_run:
  "probe_stops h ht k a \<Longrightarrow>
   ht_search h ht k =
     Some (Inr (case entries ht ! nat (cell h ht k a) of Entry e \<Rightarrow> Some e | _ \<Rightarrow> None))"
  using search_loop_run [of h ht k a 0] by (simp add: ht_search_def cell_def)

lemma ht_insert_loop_start:
  "probe_stops h ht k a \<Longrightarrow>
   ht_insert_loop h ht (ht_entry_init k v) (h k (capacity ht) 0) 1 =
     Some (Inr (ht_put ht (nat (cell h ht k a)) (ht_entry_init k v)))"
  using insert_loop_run [of h ht "ht_entry_init k v" a 0]
  by (simp add: ht_entry_init_def cell_def)

lemma ht_delete_loop_start:
  "probe_stops h ht k a \<Longrightarrow>
   ht_delete_loop h ht k (h k (capacity ht) 0) 0 = Some (Inr (ht_unput ht (nat (cell h ht k a))))"
  using delete_loop_run [of h ht k a 0] by (simp add: cell_def)


lemma np4: "next_prime 4 = 5"
  by (simp add: next_prime_def is_prime_def)
lemma np50: "next_prime 50 = 53"
  by (simp add: next_prime_def is_prime_def)
lemma np1: "next_prime 1 = 2" "next_prime 2 = 2"
  by code_simp+
lemma np3: "next_prime 3 = 3"
  by (simp add: next_prime_def is_prime_def)

lemma probe_stops_exists:
  assumes cov: "probe_covers h (capacity ht)"
    and cap: "capacity ht = int (length (entries ht))"
    and j: "j < length (entries ht)" "\<not> other k (entries ht ! j)"
  shows "\<exists>a. probe_stops h ht k a"
proof -
  let ?P = "\<lambda>a. \<not> other k (entries ht ! nat (cell h ht k a))"
  from cov cap j(1) obtain a0 :: nat where "h k (capacity ht) (int a0) = int j"
    unfolding probe_covers_def by (metis of_nat_0_le_iff of_nat_less_iff)
  with j(2) have "?P a0" by (simp add: cell_def)
  then have 1: "?P (LEAST a. ?P a)" by (rule LeastI)
  have 2: "\<forall>b<(LEAST a. ?P a). other k (entries ht ! nat (cell h ht k b))"
    using not_less_Least by blast
  have 3: "\<forall>b. 0 \<le> cell h ht k b \<and> cell h ht k b < int (length (entries ht))"
    using cov cap unfolding probe_covers_def cell_def by (metis of_nat_0_le_iff)
  from 1 2 3 show ?thesis unfolding probe_stops_def by blast
qed

lemma probe_stops_unique:
  assumes "probe_stops h ht k a" "probe_stops h ht k a'"
  shows "a = a'"
proof (rule ccontr)
  assume "a \<noteq> a'"
  then consider "a < a'" | "a' < a" by linarith
  then show False
    using assms unfolding probe_stops_def by cases blast+
qed

lemma free_slot_exists:
  assumes "occupied ht < length (entries ht)"
  shows "\<exists>j<length (entries ht). \<not> is_entry (entries ht ! j)"
proof (rule ccontr)
  assume "\<not> ?thesis"
  then have "\<forall>x\<in>set (entries ht). is_entry x"
    by (metis in_set_conv_nth)
  then have "filter is_entry (entries ht) = entries ht" by simp
  with assms show False by (simp add: occupied_def)
qed

lemma not_entry_not_other: "\<not> is_entry s \<Longrightarrow> \<not> other k s"
  by (cases s) (simp_all add: is_entry_def other_def)

lemma length_filter_update:
  assumes "p < length xs"
  shows "int (length (filter P (xs[p := y]))) =
         int (length (filter P xs)) - (if P (xs ! p) then 1 else 0) + (if P y then 1 else 0)"
  using assms
proof (induction xs arbitrary: p)
  case Nil then show ?case by simp
next
  case (Cons x xs)
  show ?case
  proof (cases p)
    case 0
    then show ?thesis by simp
  next
    case (Suc q)
    with Cons.prems have "q < length xs" by simp
    from Cons.IH [OF this] Suc show ?thesis by (auto split: if_splits)
  qed
qed

lemma occupied_put:
  assumes "p < length (entries ht)"
  shows "occupied (ht_put ht p e) = (if is_entry (entries ht ! p) then occupied ht else occupied ht + 1)"
  using length_filter_update [OF assms, of is_entry "Entry e"]
  by (auto simp: occupied_def ht_put_def is_entry_def)

lemma ht_wf_put:
  assumes "ht_wf ht" "p < length (entries ht)"
  shows "ht_wf (ht_put ht p e)"
  using assms occupied_put [OF assms(2), of e]
  by (auto simp: ht_wf_def) (auto simp: ht_put_def)

lemma put_fields [simp]:
  "capacity (ht_put ht p e) = capacity ht"
  "base_capacity (ht_put ht p e) = base_capacity ht"
  "length (entries (ht_put ht p e)) = length (entries ht)"
  "entries (ht_put ht p e) = (entries ht)[p := Entry e]"
  "count (ht_put ht p e) = (if is_entry (entries ht ! p) then count ht else count ht + 1)"
  by (simp_all add: ht_put_def)


lemma cell_put [simp]: "cell h (ht_put ht p e) k b = cell h ht k b"
  by (simp add: cell_def)

lemma probe_stops_range:
  "probe_stops h ht k a \<Longrightarrow> nat (cell h ht k a) < length (entries ht)"
  unfolding probe_stops_def by (metis le_refl nat_less_iff)

lemma probe_stops_before:
  "probe_stops h ht k a \<Longrightarrow> b < a \<Longrightarrow> other k (entries ht ! nat (cell h ht k b))"
  by (simp add: probe_stops_def)

lemma probe_stops_at:
  "probe_stops h ht k a \<Longrightarrow> \<not> other k (entries ht ! nat (cell h ht k a))"
  by (simp add: probe_stops_def)

lemma probe_stops_update:
  assumes st: "probe_stops h ht k a"
    and len: "length (entries ht') = length (entries ht)" "capacity ht' = capacity ht"
    and bef: "\<And>b. b < a \<Longrightarrow> other k (entries ht' ! nat (cell h ht k b))"
    and at: "\<not> other k (entries ht' ! nat (cell h ht k a))"
  shows "probe_stops h ht' k a"
proof -
  have "cell h ht' k = cell h ht k" using len(2) by (simp add: cell_def fun_eq_iff)
  with st len(1) bef at show ?thesis by (simp add: probe_stops_def)
qed

lemma probe_stops_put_self:
  assumes "probe_stops h ht k a" "key e = k"
  shows "probe_stops h (ht_put ht (nat (cell h ht k a)) e) k a"
proof (rule probe_stops_update [OF assms(1)])
  let ?p = "nat (cell h ht k a)"
  have p: "?p < length (entries ht)" using assms(1) by (rule probe_stops_range)
  show "\<not> other k (entries (ht_put ht ?p e) ! ?p)"
    using p assms(2) by (simp add: other_def)
  fix b assume b: "b < a"
  have "nat (cell h ht k b) \<noteq> ?p"
    using probe_stops_before [OF assms(1) b] probe_stops_at [OF assms(1)] by metis
  then show "other k (entries (ht_put ht ?p e) ! nat (cell h ht k b))"
    using probe_stops_before [OF assms(1) b] by simp
qed simp_all

lemma probe_stops_put_other:
  assumes k: "probe_stops h ht k a" "key e = k"
    and k': "probe_stops h ht k' a'" "k' \<noteq> k"
    and ne: "nat (cell h ht k' a') \<noteq> nat (cell h ht k a)"
  shows "probe_stops h (ht_put ht (nat (cell h ht k a)) e) k' a'"
proof (rule probe_stops_update [OF k'(1)])
  let ?p = "nat (cell h ht k a)"
  have p: "?p < length (entries ht)" using k(1) by (rule probe_stops_range)
  have new: "other k' (Entry e)" using k(2) k'(2) by (simp add: other_def)
  show "\<not> other k' (entries (ht_put ht ?p e) ! nat (cell h ht k' a'))"
    using ne probe_stops_at [OF k'(1)] by simp
  fix b assume b: "b < a'"
  show "other k' (entries (ht_put ht ?p e) ! nat (cell h ht k' b))"
    using probe_stops_before [OF k'(1) b] new p
    by (cases "nat (cell h ht k' b) = ?p") simp_all
qed simp_all

lemma reachable_put:
  assumes r: "reachable h ht" and st: "probe_stops h ht k a" and e: "key e = k"
  shows "reachable h (ht_put ht (nat (cell h ht k a)) e)"
  unfolding reachable_def
proof (intro allI impI)
  let ?p = "nat (cell h ht k a)"
  let ?ht = "ht_put ht ?p e"
  fix i x assume i: "i < length (entries ?ht)" and x: "entries ?ht ! i = Entry x"
  have p: "?p < length (entries ht)" using st by (rule probe_stops_range)
  show "\<exists>a. probe_stops h ?ht (key x) a \<and> nat (cell h ?ht (key x) a) = i"
  proof (cases "i = ?p")
    case True
    with x p have "x = e" by simp
    with probe_stops_put_self [OF st e] e True show ?thesis by auto
  next
    case False
    with x i have old: "entries ht ! i = Entry x" "i < length (entries ht)" by simp_all
    with r obtain a' where a': "probe_stops h ht (key x) a'" "nat (cell h ht (key x) a') = i"
      unfolding reachable_def by blast
    have "key x \<noteq> k"
    proof
      assume "key x = k"
      with a' st have "a' = a" using probe_stops_unique by blast
      with a' \<open>key x = k\<close> False show False by simp
    qed
    from probe_stops_put_other [OF st e a'(1) this] a'(2) False show ?thesis by auto
  qed
qed

lemma reachable_search:
  assumes "reachable h ht" "i < length (entries ht)" "entries ht ! i = Entry e"
  shows "ht_search h ht (key e) = Some (Inr (Some e))"
proof -
  from assms obtain a where "probe_stops h ht (key e) a" "nat (cell h ht (key e) a) = i"
    unfolding reachable_def by blast
  with ht_search_run [of h ht "key e" a] assms(3) show ?thesis by simp
qed

lemma reachable_keys_distinct:
  assumes "reachable h ht"
  shows "keys_distinct ht"
  unfolding keys_distinct_def
proof (intro allI impI)
  fix i j e e'
  assume i: "i < length (entries ht)" "entries ht ! i = Entry e"
    and j: "j < length (entries ht)" "entries ht ! j = Entry e'" and eq: "key e = key e'"
  from assms i obtain a where a: "probe_stops h ht (key e) a" "nat (cell h ht (key e) a) = i"
    unfolding reachable_def by blast
  from assms j obtain b where b: "probe_stops h ht (key e') b" "nat (cell h ht (key e') b) = j"
    unfolding reachable_def by blast
  from a(1) b(1) eq have "a = b" using probe_stops_unique by metis
  with a(2) b(2) eq show "i = j" by simp
qed

lemma entry_set_nth: "e \<in> entry_set ht \<longleftrightarrow> (\<exists>i<length (entries ht). entries ht ! i = Entry e)"
  by (auto simp: entry_set_def in_set_conv_nth)

lemma entry_set_put_subset:
  assumes "p < length (entries ht)"
  shows "entry_set (ht_put ht p e) \<subseteq> insert e (entry_set ht)"
  using assms by (auto simp: entry_set_nth nth_list_update split: if_splits)

lemma entry_set_put_reachable:
  assumes r: "reachable h ht" and st: "probe_stops h ht k a" and e: "key e = k"
  shows "entry_set (ht_put ht (nat (cell h ht k a)) e) = insert e {x \<in> entry_set ht. key x \<noteq> k}"
proof -
  let ?p = "nat (cell h ht k a)"
  have p: "?p < length (entries ht)" using st by (rule probe_stops_range)
  have only: "i = ?p" if "i < length (entries ht)" "entries ht ! i = Entry x" "key x = k" for i x
  proof -
    from r that obtain a' where "probe_stops h ht k a'" "nat (cell h ht k a') = i"
      unfolding reachable_def by blast
    with st show ?thesis using probe_stops_unique by blast
  qed
  have atp: "key x = k" if "entries ht ! ?p = Entry x" for x
    using probe_stops_at [OF st] that by (simp add: other_def)
  show ?thesis
  proof (intro equalityI subsetI)
    fix x assume "x \<in> entry_set (ht_put ht ?p e)"
    then obtain i where i: "i < length (entries ht)" "(entries ht)[?p := Entry e] ! i = Entry x"
      by (auto simp: entry_set_nth)
    show "x \<in> insert e {x \<in> entry_set ht. key x \<noteq> k}"
    proof (cases "i = ?p")
      case True with i show ?thesis by simp
    next
      case False
      with i have "entries ht ! i = Entry x" by simp
      with i(1) False only show ?thesis by (auto simp: entry_set_nth)
    qed
  next
    fix x assume "x \<in> insert e {x \<in> entry_set ht. key x \<noteq> k}"
    then consider "x = e" | i where "i < length (entries ht)" "entries ht ! i = Entry x" "key x \<noteq> k"
      by (auto simp: entry_set_nth)
    then show "x \<in> entry_set (ht_put ht ?p e)"
    proof cases
      case 1 with p show ?thesis by (auto simp: entry_set_nth)
    next
      case 2
      with atp have "i \<noteq> ?p" by auto
      with 2 show ?thesis unfolding entry_set_nth by (intro exI [of _ i]) simp
    qed
  qed
qed


lemma sdiv_nonneg: "0 \<le> x \<Longrightarrow> 0 < c \<Longrightarrow> x sdiv c = x div (c::int)"
  by (cases "x = 0") (simp_all add: signed_divide_int_def)

lemma load_mono:
  assumes "0 \<le> x" "x \<le> y" "0 < (c::int)"
  shows "x * 100 sdiv c \<le> y * 100 sdiv c"
  using assms by (simp add: sdiv_nonneg zdiv_mono1)

lemma load_room:
  assumes "0 \<le> x" "0 < (c::int)" "x * 100 sdiv c \<le> 70"
  shows "x < c"
proof (rule ccontr)
  assume "\<not> x < c"
  then have "c * 100 \<le> x * 100" by simp
  then have "c * 100 div c \<le> x * 100 div c" by (rule zdiv_mono1) (rule assms(2))
  with assms show False by (simp add: sdiv_nonneg)
qed

lemma sdiv_numeral_simps [simp]:
  "(numeral a :: int) sdiv numeral b = numeral a div numeral b"
  "(0 :: int) sdiv numeral b = 0"
  "(1 :: int) sdiv numeral b = 1 div numeral b"
  by (simp_all add: signed_divide_int_def)

lemma int32_simps [simp]:
  "int32 0 = 0"
  "int32 1 = 1"
  "int32 (numeral n) = (numeral n + 2 ^ 31) mod 2 ^ 32 - 2 ^ 31"
  by (simp_all add: int32_def)

lemma int32_id: "- (2 ^ 31) \<le> x \<Longrightarrow> x < 2 ^ 31 \<Longrightarrow> int32 x = x"
  by (simp add: int32_def)

lemma int32_le: "0 \<le> x \<Longrightarrow> int32 x \<le> x"
proof (cases "x < 2 ^ 31")
  case True
  assume "0 \<le> x"
  with True show ?thesis by (simp add: int32_id)
next
  case False
  have "(x + 2 ^ 31) mod 2 ^ 32 < (2 ^ 32 :: int)" by simp
  then have "int32 x < 2 ^ 31" by (simp add: int32_def)
  with False show ?thesis by simp
qed

lemma sdiv_mono:
  assumes "a \<le> b" "0 < (c::int)"
  shows "a sdiv c \<le> b sdiv c"
proof (cases "0 \<le> a")
  case True
  with assms show ?thesis by (simp add: sdiv_nonneg zdiv_mono1)
next
  case False
  then have "a sdiv c \<le> 0"
    using assms(2) by (simp add: signed_divide_int_def sgn_if pos_imp_zdiv_nonneg_iff)
  show ?thesis
  proof (cases "0 \<le> b")
    case True
    with assms(2) have "0 \<le> b sdiv c" by (simp add: sdiv_nonneg pos_imp_zdiv_nonneg_iff)
    with \<open>a sdiv c \<le> 0\<close> show ?thesis by simp
  next
    case nb: False
    have "\<bar>b\<bar> div c \<le> \<bar>a\<bar> div c"
      using assms False nb by (intro zdiv_mono1) simp_all
    with False nb assms(2) show ?thesis by (simp add: signed_divide_int_def sgn_if)
  qed
qed

lemma load_le:
  assumes "0 \<le> count ht" "0 < capacity ht"
  shows "load ht \<le> (count ht * 100) sdiv capacity ht"
  unfolding load_def using assms by (intro sdiv_mono int32_le) simp_all

lemma load_exact:
  assumes "0 \<le> count ht" "count ht * 100 < 2 ^ 31"
  shows "load ht = (count ht * 100) sdiv capacity ht"
  unfolding load_def using assms by (subst int32_id) simp_all

lemma load_wf:
  assumes "ht_wf ht" "length (entries ht) \<le> 2 ^ 24"
  shows "load ht = int (occupied ht) * 100 sdiv capacity ht"
proof -
  have "occupied ht \<le> length (entries ht)" by (simp add: occupied_def)
  with assms(2) have "occupied ht \<le> 2 ^ 24" by simp
  then have "int (occupied ht) \<le> 2 ^ 24" by (metis of_nat_le_iff of_nat_numeral of_nat_power)
  then have "int (occupied ht) * 100 < 2 ^ 31" by simp
  with assms(1) show ?thesis by (simp add: load_exact ht_wf_def)
qed

lemma load_numeral [simp]:
  "load \<lparr>capacity = c, base_capacity = b, count = n, entries = es\<rparr> = int32 (n * 100) sdiv c"
  by (simp add: load_def)

lemma insert_no_grow:
  assumes "capacity ht \<noteq> 0" "\<not> 70 < load ht" "probe_stops h ht k a"
  shows "ht_insert_raw h np n ht k v =
         Some (Inr (ht_put ht (nat (cell h ht k a)) (ht_entry_init k v)))"
  using assms by (simp add: ht_insert_loop_start ht_insert_raw.simps)

lemma key_entry_init [simp]: "key (ht_entry_init k v) = k" "val (ht_entry_init k v) = v"
  by (simp_all add: ht_entry_init_def)

lemma entry_init_eta [simp]: "ht_entry_init (key r) (val r) = r"
  by (simp add: ht_entry_init_def)

lemma stop_present_iff:
  assumes r: "reachable h ht" and st: "probe_stops h ht k a"
  shows "is_entry (entries ht ! nat (cell h ht k a)) \<longleftrightarrow> k \<in> key ` entry_set ht"
proof
  assume "is_entry (entries ht ! nat (cell h ht k a))"
  then obtain x where x: "entries ht ! nat (cell h ht k a) = Entry x"
    by (auto simp: is_entry_def split: slot.splits)
  with probe_stops_at [OF st] have "key x = k" by (simp add: other_def)
  moreover have "x \<in> entry_set ht"
    using x probe_stops_range [OF st] unfolding entry_set_nth by blast
  ultimately show "k \<in> key ` entry_set ht" by blast
next
  assume "k \<in> key ` entry_set ht"
  then obtain x i where x: "i < length (entries ht)" "entries ht ! i = Entry x" "key x = k"
    by (auto simp: entry_set_nth)
  with r obtain a' where "probe_stops h ht k a'" "nat (cell h ht k a') = i"
    unfolding reachable_def by blast
  with st have "nat (cell h ht k a) = i" using probe_stops_unique by blast
  with x show "is_entry (entries ht ! nat (cell h ht k a))" by (simp add: is_entry_def)
qed

lemma insert_total:
  assumes wf: "ht_wf ht" and r: "reachable h ht" and cov: "probe_covers h (capacity ht)"
    and load: "\<not> 70 < load ht"
    and room: "occupied ht < length (entries ht)"
  shows "\<exists>ht' a. ht_insert_raw h np n ht k v = Some (Inr ht') \<and>
           capacity ht' = capacity ht \<and> base_capacity ht' = base_capacity ht \<and>
           ht_wf ht' \<and> reachable h ht' \<and>
           entry_set ht' = insert (ht_entry_init k v) {x \<in> entry_set ht. key x \<noteq> k} \<and>
           probe_stops h ht' k a \<and> entries ht' ! nat (cell h ht' k a) = Entry (ht_entry_init k v) \<and>
           occupied ht' = (if k \<in> key ` entry_set ht then occupied ht else occupied ht + 1)"
proof -
  from free_slot_exists [OF room] obtain j where j: "j < length (entries ht)" "\<not> is_entry (entries ht ! j)"
    by blast
  from wf have cap: "capacity ht = int (length (entries ht))" by (simp add: ht_wf_def)
  from probe_stops_exists [OF cov cap j(1) not_entry_not_other [OF j(2)]]
  obtain a where st: "probe_stops h ht k a" by blast
  let ?p = "nat (cell h ht k a)" and ?e = "ht_entry_init k v"
  have p: "?p < length (entries ht)" using st by (rule probe_stops_range)
  from cap room have "capacity ht \<noteq> 0" by auto
  from insert_no_grow [OF this load st]
  have 1: "ht_insert_raw h np n ht k v = Some (Inr (ht_put ht ?p ?e))" .
  have 2: "ht_wf (ht_put ht ?p ?e)" using wf p by (rule ht_wf_put)
  have 3: "reachable h (ht_put ht ?p ?e)" using r st by (rule reachable_put) simp
  have 4: "entry_set (ht_put ht ?p ?e) = insert ?e {x \<in> entry_set ht. key x \<noteq> k}"
    using r st by (rule entry_set_put_reachable) simp
  have 5: "probe_stops h (ht_put ht ?p ?e) k a" using st by (rule probe_stops_put_self) simp
  have 6: "entries (ht_put ht ?p ?e) ! nat (cell h (ht_put ht ?p ?e) k a) = Entry ?e"
    using p by simp
  have 7: "occupied (ht_put ht ?p ?e) = (if k \<in> key ` entry_set ht then occupied ht else occupied ht + 1)"
    using occupied_put [OF p] stop_present_iff [OF r st] by simp
  from 1 2 3 4 5 6 7 show ?thesis by (intro exI [of _ "ht_put ht ?p ?e"] exI [of _ a]) simp
qed


lemma ht_init_fields [simp]:
  "capacity (ht_init np b) = np (eff_base b)"
  "base_capacity (ht_init np b) = eff_base b"
  "count (ht_init np b) = 0"
  "entries (ht_init np b) = replicate (nat (np (eff_base b))) Null"
  by (simp_all add: ht_init_def eff_base_def Let_def)

lemma occupied_init [simp]: "occupied (ht_init np b) = 0"
  by (simp add: occupied_def is_entry_def)

lemma entry_set_init [simp]: "entry_set (ht_init np b) = {}"
  by (auto simp: entry_set_def)

lemma load_init [simp]: "load (ht_init np b) = 0"
  by (simp add: load_def)

lemma ht_wf_init: "0 \<le> np (eff_base b) \<Longrightarrow> ht_wf (ht_init np b)"
  by (simp add: ht_wf_def)

lemma reachable_init: "reachable h (ht_init np b)"
  by (simp add: reachable_def)

lemma is_entry_simps [simp]:
  "is_entry (Entry e)" "\<not> is_entry Null" "\<not> is_entry Sentinel"
  by (simp_all add: is_entry_def)

lemma other_simps [simp]:
  "other k (Entry e) \<longleftrightarrow> key e \<noteq> k" "\<not> other k Null" "\<not> other k Sentinel"
  by (simp_all add: other_def)

lemma keys_distinctD:
  "keys_distinct ht \<Longrightarrow> i < length (entries ht) \<Longrightarrow> j < length (entries ht) \<Longrightarrow>
   entries ht ! i = Entry e \<Longrightarrow> entries ht ! j = Entry e' \<Longrightarrow> key e = key e' \<Longrightarrow> i = j"
  unfolding keys_distinct_def by blast

lemma resize_fold:
  fixes ht :: "'v hash_table"
  assumes cov: "probe_covers h (np (eff_base b))" and pos: "0 < np (eff_base b)"
    and dist: "keys_distinct ht"
    and room: "(int (occupied ht) - 1) * 100 sdiv np (eff_base b) \<le> 70"
    and i: "i \<le> length (entries ht)"
  shows "\<exists>acc. fold (\<lambda>i acc.
                     case acc of
                       None \<Rightarrow> None
                     | Some (Inl f) \<Rightarrow> Some (Inl f)
                     | Some (Inr new_ht) \<Rightarrow>
                         if length (entries ht) \<le> i then Some (Inl OutOfBounds)
                         else (case entries ht ! i of
                                 Entry r \<Rightarrow> ht_insert_raw h np n new_ht (key r) (val r)
                               | _ \<Rightarrow> Some (Inr new_ht)))
                  [0 ..< i] (Some (Inr (ht_init np b))) = Some (Inr acc) \<and>
           capacity acc = np (eff_base b) \<and> base_capacity acc = eff_base b \<and>
           ht_wf acc \<and> reachable h acc \<and>
           entry_set acc = {e. Entry e \<in> set (take i (entries ht))} \<and>
           occupied acc = length (filter is_entry (take i (entries ht)))"
  (is "\<exists>acc. fold ?F [0 ..< i] ?init = Some (Inr acc) \<and> ?Q i acc")
  using i
proof (induction i)
  case 0
  show ?case using pos by (simp add: ht_wf_init reachable_init)
next
  case (Suc i)
  then have i: "i < length (entries ht)" by simp
  with Suc.IH obtain acc where acc: "fold ?F [0 ..< i] ?init = Some (Inr acc)" and Q: "?Q i acc"
    by auto
  have step: "fold ?F [0 ..< Suc i] ?init = ?F i (Some (Inr acc))"
    by (simp add: acc)
  have tk: "take (Suc i) (entries ht) = take i (entries ht) @ [entries ht ! i]"
    using i by (rule take_Suc_conv_app_nth)
  show ?case
  proof (cases "entries ht ! i")
    case (Entry r)
    let ?q = "length (filter is_entry (take i (entries ht)))"
    have "length (filter is_entry (take (Suc i) (entries ht))) \<le> occupied ht"
      unfolding occupied_def
      by (metis append_take_drop_id filter_append le_add1 length_append)
    with tk Entry have q: "int ?q \<le> int (occupied ht) - 1" by simp
    from Q have cnt: "count acc = int ?q" by (simp add: ht_wf_def)
    have "int ?q * 100 sdiv np (eff_base b) \<le> (int (occupied ht) - 1) * 100 sdiv np (eff_base b)"
      by (rule load_mono [OF _ q pos]) simp
    with room have ld: "int ?q * 100 sdiv np (eff_base b) \<le> 70" by linarith
    have "load acc \<le> (count acc * 100) sdiv capacity acc"
      by (rule load_le) (use Q cnt pos in simp_all)
    with ld have load: "\<not> 70 < load acc" using Q cnt by simp
    have "int ?q < np (eff_base b)" by (rule load_room [OF _ pos ld]) simp
    then have rm: "occupied acc < length (entries acc)" using Q by (simp add: ht_wf_def)
    have cov': "probe_covers h (capacity acc)" using cov Q by simp
    from Q have wf: "ht_wf acc" and r: "reachable h acc" by simp_all
    from insert_total [OF wf r cov' load rm, of np n "key r" "val r"]
    obtain acc' where acc':
      "ht_insert_raw h np n acc (key r) (val r) = Some (Inr acc')"
      "capacity acc' = capacity acc" "base_capacity acc' = base_capacity acc"
      "ht_wf acc'" "reachable h acc'"
      "entry_set acc' = insert r {x \<in> entry_set acc. key x \<noteq> key r}"
      "occupied acc' = (if key r \<in> key ` entry_set acc then occupied acc else occupied acc + 1)"
      by auto
    have absent: "key x \<noteq> key r" if "x \<in> entry_set acc" for x
    proof
      assume eq: "key x = key r"
      from that Q have "Entry x \<in> set (take i (entries ht))" by simp
      then obtain j where j: "j < i" "entries ht ! j = Entry x"
        using i by (auto simp: in_set_conv_nth)
      from j(1) i have "j < length (entries ht)" by simp
      from keys_distinctD [OF dist this i j(2) Entry eq] have "j = i" .
      with j show False by simp
    qed
    have "fold ?F [0 ..< Suc i] ?init = Some (Inr acc')"
      using step i Entry acc'(1) by simp
    moreover have "entry_set acc' = {e. Entry e \<in> set (take (Suc i) (entries ht))}"
    proof -
      have "{x \<in> entry_set acc. key x \<noteq> key r} = entry_set acc" using absent by auto
      with acc'(6) have "entry_set acc' = insert r (entry_set acc)" by simp
      also have "\<dots> = {e. Entry e \<in> set (take (Suc i) (entries ht))}"
        using Q tk Entry by auto
      finally show ?thesis .
    qed
    moreover have "occupied acc' = length (filter is_entry (take (Suc i) (entries ht)))"
    proof -
      have "key r \<notin> key ` entry_set acc"
      proof
        assume "key r \<in> key ` entry_set acc"
        then obtain x where "x \<in> entry_set acc" "key x = key r" by (auto simp: image_iff)
        with absent show False by simp
      qed
      with acc'(7) have "occupied acc' = occupied acc + 1" by simp
      also have "\<dots> = length (filter is_entry (take (Suc i) (entries ht)))"
        using Q tk Entry by simp
      finally show ?thesis .
    qed
    ultimately show ?thesis using acc'(2-5) Q by (intro exI [of _ acc']) simp
  next
    case Null
    have "fold ?F [0 ..< Suc i] ?init = Some (Inr acc)"
      using step i Null by simp
    with Q tk Null show ?thesis by (intro exI [of _ acc]) simp
  next
    case Sentinel
    have "fold ?F [0 ..< Suc i] ?init = Some (Inr acc)"
      using step i Sentinel by simp
    with Q tk Sentinel show ?thesis by (intro exI [of _ acc]) simp
  qed
qed


lemma table_swap_eq:
  "ht\<lparr>base_capacity := base_capacity a, count := count a, capacity := capacity a,
      entries := entries a\<rparr> = (a :: 'v hash_table)"
  by simp

lemma resize_total:
  fixes ht :: "'v hash_table"
  assumes "resize_ready h np ht b"
  shows "\<exists>ht'. ht_resize h np (Suc n) ht b = Some (Inr ht') \<and>
           capacity ht' = np (eff_base b) \<and> base_capacity ht' = eff_base b \<and>
           ht_wf ht' \<and> reachable h ht' \<and> entry_set ht' = entry_set ht \<and>
           occupied ht' = occupied ht"
proof -
  from assms have b: "0 \<le> b" and pos: "0 < np (eff_base b)"
    and cov: "probe_covers h (np (eff_base b))" and dist: "keys_distinct ht"
    and cap: "capacity ht = int (length (entries ht))"
    and room: "(int (occupied ht) - 1) * 100 sdiv np (eff_base b) \<le> 70"
    by (simp_all add: resize_ready_def)
  from resize_fold [where h = h and np = np and b = b and ht = ht
      and i = "length (entries ht)" and n = n, OF cov pos dist room le_refl]
  obtain acc where acc:
    "fold (\<lambda>i acc.
             case acc of
               None \<Rightarrow> None
             | Some (Inl f) \<Rightarrow> Some (Inl f)
             | Some (Inr new_ht) \<Rightarrow>
                 if length (entries ht) \<le> i then Some (Inl OutOfBounds)
                 else (case entries ht ! i of
                         Entry r \<Rightarrow> ht_insert_raw h np n new_ht (key r) (val r)
                       | _ \<Rightarrow> Some (Inr new_ht)))
          [0 ..< length (entries ht)] (Some (Inr (ht_init np b))) = Some (Inr acc)"
    and Q: "capacity acc = np (eff_base b)" "base_capacity acc = eff_base b"
      "ht_wf acc" "reachable h acc"
      "entry_set acc = {e. Entry e \<in> set (take (length (entries ht)) (entries ht))}"
      "occupied acc = length (filter is_entry (take (length (entries ht)) (entries ht)))"
    by blast
  have idx: "nat (if capacity ht < 0 then 2 ^ 32 + capacity ht else capacity ht) = length (entries ht)"
    using cap by simp
  have "ht_resize h np (Suc n) ht b = Some (Inr acc)"
    using b by (simp add: ht_resize.simps idx acc table_swap_eq)
  with Q show ?thesis by (intro exI [of _ acc]) (simp add: entry_set_def occupied_def)
qed


lemma load_trigger_capacity: "70 < load ht \<Longrightarrow> capacity ht \<noteq> 0"
  by (auto simp: load_def)

lemma insert_walk:
  fixes ht :: "'v hash_table"
  assumes wf: "ht_wf ht" and rdy: "insert_ready h np ht"
  shows "\<exists>ht1 a.
           (if 70 < load ht
            then ht_resize h np (Suc n) ht (int32 (base_capacity ht * 2)) = Some (Inr ht1) \<and>
                 reachable h ht1 \<and> entry_set ht1 = entry_set ht \<and>
                 capacity ht1 = np (eff_base (int32 (base_capacity ht * 2))) \<and>
                 base_capacity ht1 = eff_base (int32 (base_capacity ht * 2)) \<and>
                 occupied ht1 = occupied ht
            else ht1 = ht) \<and>
           ht_wf ht1 \<and> probe_stops h ht1 k a \<and>
           ht_insert h np (Suc n) ht k v =
             Some (Inr (ht_put ht1 (nat (cell h ht1 k a)) (ht_entry_init k v)))"
proof (cases "70 < load ht")
  case True
  with rdy have rr: "resize_ready h np ht (int32 (base_capacity ht * 2))"
    and room: "int (occupied ht) < np (eff_base (int32 (base_capacity ht * 2)))"
    by (simp_all add: insert_ready_def walk_ready_def)
  from resize_total [OF rr, of n] obtain ht1 where ht1:
    "ht_resize h np (Suc n) ht (int32 (base_capacity ht * 2)) = Some (Inr ht1)"
    "capacity ht1 = np (eff_base (int32 (base_capacity ht * 2)))"
    "base_capacity ht1 = eff_base (int32 (base_capacity ht * 2))"
    "ht_wf ht1" "reachable h ht1" "entry_set ht1 = entry_set ht" "occupied ht1 = occupied ht"
    by blast
  from ht1(4) have cap1: "capacity ht1 = int (length (entries ht1))" by (simp add: ht_wf_def)
  with room ht1(2,7) have "occupied ht1 < length (entries ht1)" by simp
  from free_slot_exists [OF this] obtain j where
    j: "j < length (entries ht1)" "\<not> is_entry (entries ht1 ! j)" by blast
  from rr ht1(2) have "probe_covers h (capacity ht1)" by (simp add: resize_ready_def)
  from probe_stops_exists [OF this cap1 j(1) not_entry_not_other [OF j(2)]]
  obtain a where a: "probe_stops h ht1 k a" by blast
  from True have "capacity ht \<noteq> 0" by (rule load_trigger_capacity)
  with True ht1(1) have "ht_insert h np (Suc n) ht k v =
      Some (Inr (ht_put ht1 (nat (cell h ht1 k a)) (ht_entry_init k v)))"
    by (simp add: ht_insert_def ht_insert_raw.simps ht_resize_up.simps
        ht_insert_loop_start [OF a])
  with True ht1 a show ?thesis by (intro exI [of _ ht1] exI [of _ a]) simp
next
  case False
  with rdy have cov: "probe_covers h (capacity ht)" and room: "occupied ht < length (entries ht)"
    by (simp_all add: insert_ready_def walk_ready_def)
  from wf have cap: "capacity ht = int (length (entries ht))" by (simp add: ht_wf_def)
  from free_slot_exists [OF room] obtain j where
    j: "j < length (entries ht)" "\<not> is_entry (entries ht ! j)" by blast
  from probe_stops_exists [OF cov cap j(1) not_entry_not_other [OF j(2)]]
  obtain a where a: "probe_stops h ht k a" by blast
  from cap room have "capacity ht \<noteq> 0" by auto
  from insert_no_grow [OF this False a, of np "Suc n" v] False wf a
  show ?thesis by (intro exI [of _ ht] exI [of _ a]) (simp add: ht_insert_def)
qed

lemma delete_no_shrink:
  assumes "capacity ht \<noteq> 0" "\<not> load ht < 10" "probe_stops h ht k a"
  shows "ht_delete h np n ht k = Some (Inr (ht_unput ht (nat (cell h ht k a))))"
  using assms by (simp add: ht_delete_def ht_delete_raw_def ht_delete_loop_start)

lemma delete_shrink:
  assumes "capacity ht \<noteq> 0" "load ht < 10"
    "ht_resize h np n ht (base_capacity ht sdiv 2) = Some (Inr ht1)" "probe_stops h ht1 k a"
  shows "ht_delete h np n ht k = Some (Inr (ht_unput ht1 (nat (cell h ht1 k a))))"
  using assms
  by (simp add: ht_delete_def ht_delete_raw_def ht_resize_down_def ht_delete_loop_start)

lemma delete_walk:
  fixes ht :: "'v hash_table"
  assumes wf: "ht_wf ht" and rdy: "delete_ready h np ht"
  shows "\<exists>ht1 a.
           (if load ht < 10
            then ht_resize h np (Suc n) ht (base_capacity ht sdiv 2) = Some (Inr ht1) \<and>
                 reachable h ht1 \<and> entry_set ht1 = entry_set ht \<and>
                 capacity ht1 = np (eff_base (base_capacity ht sdiv 2)) \<and>
                 base_capacity ht1 = eff_base (base_capacity ht sdiv 2) \<and>
                 occupied ht1 = occupied ht
            else ht1 = ht) \<and>
           ht_wf ht1 \<and> probe_stops h ht1 k a \<and>
           ht_delete h np (Suc n) ht k = Some (Inr (ht_unput ht1 (nat (cell h ht1 k a))))"
proof (cases "load ht < 10")
  case True
  from rdy have c0: "capacity ht \<noteq> 0" by (simp add: delete_ready_def)
  from True rdy have rr: "resize_ready h np ht (base_capacity ht sdiv 2)"
    and room: "int (occupied ht) < np (eff_base (base_capacity ht sdiv 2))"
    by (simp_all add: delete_ready_def walk_ready_def)
  from resize_total [OF rr, of n] obtain ht1 where ht1:
    "ht_resize h np (Suc n) ht (base_capacity ht sdiv 2) = Some (Inr ht1)"
    "capacity ht1 = np (eff_base (base_capacity ht sdiv 2))"
    "base_capacity ht1 = eff_base (base_capacity ht sdiv 2)"
    "ht_wf ht1" "reachable h ht1" "entry_set ht1 = entry_set ht" "occupied ht1 = occupied ht"
    by blast
  from ht1(4) have cap1: "capacity ht1 = int (length (entries ht1))" by (simp add: ht_wf_def)
  with room ht1(2,7) have "occupied ht1 < length (entries ht1)" by simp
  from free_slot_exists [OF this] obtain j where
    j: "j < length (entries ht1)" "\<not> is_entry (entries ht1 ! j)" by blast
  from rr ht1(2) have "probe_covers h (capacity ht1)" by (simp add: resize_ready_def)
  from probe_stops_exists [OF this cap1 j(1) not_entry_not_other [OF j(2)]]
  obtain a where a: "probe_stops h ht1 k a" by blast
  from delete_shrink [OF c0 True ht1(1) a] True ht1 a
  show ?thesis by (intro exI [of _ ht1] exI [of _ a]) simp
next
  case False
  from rdy have c0: "capacity ht \<noteq> 0" by (simp add: delete_ready_def)
  from False rdy have cov: "probe_covers h (capacity ht)"
    and room: "occupied ht < length (entries ht)"
    by (simp_all add: delete_ready_def walk_ready_def)
  from wf have cap: "capacity ht = int (length (entries ht))" by (simp add: ht_wf_def)
  from free_slot_exists [OF room] obtain j where
    j: "j < length (entries ht)" "\<not> is_entry (entries ht ! j)" by blast
  from probe_stops_exists [OF cov cap j(1) not_entry_not_other [OF j(2)]]
  obtain a where a: "probe_stops h ht k a" by blast
  from delete_no_shrink [OF c0 False a, of np "Suc n"] False wf a
  show ?thesis by (intro exI [of _ ht] exI [of _ a]) simp
qed


lemma unput_entry:
  "is_entry (entries ht ! p) \<Longrightarrow>
   ht_unput ht p = (ht\<lparr>entries := (entries ht)[p := Sentinel], count := count ht - 1\<rparr>, 1)"
  by (simp add: ht_unput_def)

lemma unput_free: "\<not> is_entry (entries ht ! p) \<Longrightarrow> ht_unput ht p = (ht, 0)"
  by (simp add: ht_unput_def)

lemma occupied_clear:
  assumes "p < length (entries ht)" "is_entry (entries ht ! p)"
  shows "int (occupied (ht\<lparr>entries := (entries ht)[p := Sentinel], count := c\<rparr>)) =
         int (occupied ht) - 1"
  using length_filter_update [OF assms(1), of is_entry Sentinel] assms(2)
  by (simp add: occupied_def)

lemma ht_wf_clear:
  assumes "ht_wf ht" "p < length (entries ht)" "is_entry (entries ht ! p)"
  shows "ht_wf (ht\<lparr>entries := (entries ht)[p := Sentinel], count := count ht - 1\<rparr>)"
  using assms(1) occupied_clear [OF assms(2,3), of "count ht - 1"]
  by (simp add: ht_wf_def)

lemma nth_clear_entry:
  "i < length xs \<Longrightarrow> xs[p := Sentinel] ! i = Entry e \<Longrightarrow> xs ! i = Entry e \<and> i \<noteq> p"
  by (cases "i = p") simp_all

lemma keys_distinct_clear:
  assumes "keys_distinct ht"
  shows "keys_distinct (ht\<lparr>entries := (entries ht)[p := Sentinel], count := c\<rparr>)"
  unfolding keys_distinct_def
proof (intro allI impI)
  let ?ht = "ht\<lparr>entries := (entries ht)[p := Sentinel], count := c\<rparr>"
  fix i j e e'
  assume i: "i < length (entries ?ht)" "entries ?ht ! i = Entry e"
    and j: "j < length (entries ?ht)" "entries ?ht ! j = Entry e'" and eq: "key e = key e'"
  from i have i': "i < length (entries ht)" "entries ht ! i = Entry e"
    using nth_clear_entry [of i "entries ht" p e] by simp_all
  from j have j': "j < length (entries ht)" "entries ht ! j = Entry e'"
    using nth_clear_entry [of j "entries ht" p e'] by simp_all
  from keys_distinctD [OF assms i'(1) j'(1) i'(2) j'(2) eq] show "i = j" .
qed

lemma absent_clear:
  assumes d: "keys_distinct ht" and p: "p < length (entries ht)" "entries ht ! p = Entry e"
    and x: "x \<in> entry_set (ht\<lparr>entries := (entries ht)[p := Sentinel], count := c\<rparr>)"
  shows "key x \<noteq> key e"
proof
  assume eq: "key x = key e"
  from x obtain i where i: "i < length (entries ht)" "(entries ht)[p := Sentinel] ! i = Entry x"
    by (auto simp: entry_set_nth)
  then have ip: "i \<noteq> p" and old: "entries ht ! i = Entry x"
    using nth_clear_entry [of i "entries ht" p x] by simp_all
  from keys_distinctD [OF d i(1) p(1) old p(2) eq] ip show False by simp
qed

lemma probe_stops_clear:
  assumes st: "probe_stops h ht k a"
  shows "probe_stops h (ht\<lparr>entries := (entries ht)[nat (cell h ht k a) := Sentinel], count := c\<rparr>) k a"
proof (rule probe_stops_update [OF st])
  let ?p = "nat (cell h ht k a)"
  let ?ht = "ht\<lparr>entries := (entries ht)[?p := Sentinel], count := c\<rparr>"
  have p: "?p < length (entries ht)" using st by (rule probe_stops_range)
  show "\<not> other k (entries ?ht ! ?p)" using p by simp
  fix b assume b: "b < a"
  have "nat (cell h ht k b) \<noteq> ?p"
    using probe_stops_before [OF st b] probe_stops_at [OF st] by metis
  then show "other k (entries ?ht ! nat (cell h ht k b))"
    using probe_stops_before [OF st b] by simp
qed simp_all

lemma keys_distinct_put_absent:
  assumes d: "keys_distinct ht" and ab: "\<And>x. x \<in> entry_set ht \<Longrightarrow> key x \<noteq> key e"
  shows "keys_distinct (ht_put ht p e)"
  unfolding keys_distinct_def
proof (intro allI impI)
  fix i j x y
  assume i: "i < length (entries (ht_put ht p e))" "entries (ht_put ht p e) ! i = Entry x"
    and j: "j < length (entries (ht_put ht p e))" "entries (ht_put ht p e) ! j = Entry y"
    and eq: "key x = key y"
  have old: "entries ht ! m = Entry z \<Longrightarrow> m < length (entries ht) \<Longrightarrow> key z \<noteq> key e" for m z
    using ab [of z] unfolding entry_set_nth by blast
  show "i = j"
  proof (cases "i = p")
    case True
    with i have xe: "x = e" by simp
    show ?thesis
    proof (cases "j = p")
      case True with \<open>i = p\<close> show ?thesis by simp
    next
      case False
      with j have "entries ht ! j = Entry y" "j < length (entries ht)" by simp_all
      from old [OF this] eq xe show ?thesis by simp
    qed
  next
    case False
    with i have oi: "entries ht ! i = Entry x" "i < length (entries ht)" by simp_all
    show ?thesis
    proof (cases "j = p")
      case True
      with j have "y = e" by simp
      with old [OF oi] eq show ?thesis by simp
    next
      case False
      with j have oj: "entries ht ! j = Entry y" "j < length (entries ht)" by simp_all
      from keys_distinctD [OF d oi(2) oj(2) oi(1) oj(1) eq] show ?thesis .
    qed
  qed
qed

lemma search_loop_found:
  assumes "ht_search_loop h ht k idx i = Some y"
  shows "y = Inr (Some r) \<longrightarrow> r \<in> entry_set ht \<and> key r = k"
  using assms
proof (induction h ht k idx i y rule: ht_search_loop.raw_induct [rotated 1, consumes 1])
  case (1 search_loop h ht k idx i y)
  show ?case
  proof (cases "idx < 0 \<or> int (length (entries ht)) \<le> idx")
    case True
    with 1(2) show ?thesis by auto
  next
    case False
    then have idx: "nat idx < length (entries ht)" by auto
    show ?thesis
    proof (cases "entries ht ! nat idx")
      case (Entry e)
      show ?thesis
      proof (cases "key e = k")
        case True
        with 1(2) False Entry have "y = Inr (Some e)" by simp
        moreover have "e \<in> entry_set ht" using Entry idx unfolding entry_set_nth by blast
        ultimately show ?thesis using True by auto
      next
        case ne: False
        with 1(2) False Entry have "search_loop h ht k (h k (capacity ht) i) (i + 1) = Some y"
          by simp
        from 1(1) [OF this] show ?thesis .
      qed
    next
      case Null
      with 1(2) False show ?thesis by auto
    next
      case Sentinel
      with 1(2) False show ?thesis by auto
    qed
  qed
qed

lemma ht_search_found:
  "ht_search h ht k = Some (Inr (Some r)) \<Longrightarrow> r \<in> entry_set ht \<and> key r = k"
  unfolding ht_search_def using search_loop_found by blast

lemma ht_get_found: "ht_search h ht k = Some (Inr (Some r)) \<Longrightarrow> ht_get h ht k = Some (Inr (val r))"
  by (simp add: ht_get_def)

lemma ht_get_missing: "ht_search h ht k = Some (Inr None) \<Longrightarrow> ht_get h ht k = Some (Inr None)"
  by (simp add: ht_get_def)

lemma reachable_search_entry:
  assumes "reachable h ht" "e \<in> entry_set ht"
  shows "ht_search h ht (key e) = Some (Inr (Some e))"
  using assms reachable_search unfolding entry_set_nth by blast

lemma h_linear_covers:
  assumes "0 < c"
  shows "probe_covers h_linear c"
  unfolding probe_covers_def
proof (intro conjI allI impI)
  fix k a
  show "0 \<le> h_linear k c a" "h_linear k c a < c"
    using assms by (simp_all add: h_linear_def)
next
  fix k j assume j: "0 \<le> j" "j < c"
  let ?a = "(j - key_sum k) mod c"
  have a0: "0 \<le> ?a" using assms by simp
  have "(key_sum k + ?a) mod c = j mod c"
    by (simp add: mod_add_right_eq)
  with j have "h_linear k c (int (nat ?a)) = j"
    using a0 by (simp add: h_linear_def)
  then show "\<exists>a::nat. h_linear k c (int a) = j" ..
qed

section \<open>Tables without a free cell\<close>

text \<open>
  The three loops end at a cell that is null, the sentinel or an entry with the key, and
  nowhere else: on a table whose every cell holds an entry with another key they never end
  (in C, such a walk goes on until its attempt counter, an \<^verbatim>\<open>int\<close>, leaves the
  range of \<^verbatim>\<open>int\<close> after \<open>2 ^ 31\<close> probes).
  Such tables come out of the entry points alone, since the load is looked at before the
  entry goes in: \<^verbatim>\<open>ht_init (3)\<close> and three insertions fill three cells when the sizer
  returns 3 for 3 (the loads seen are 0, 33 and 66), and \<^verbatim>\<open>ht_init (1)\<close> and two
  insertions fill two cells when it returns 2 for 1.
\<close>

lemma trapped_cell:
  "trapped h ht k \<Longrightarrow> 0 \<le> idx \<Longrightarrow> idx < int (length (entries ht)) \<Longrightarrow>
   \<exists>e. entries ht ! nat idx = Entry e \<and> key e \<noteq> k"
proof -
  assume t: "trapped h ht k" and idx: "0 \<le> idx" "idx < int (length (entries ht))"
  from idx have "nat idx < length (entries ht)" by simp
  with t have "other k (entries ht ! nat idx)" by (simp add: trapped_def)
  then show ?thesis by (cases "entries ht ! nat idx") simp_all
qed

lemma trapped_next:
  "trapped h ht k \<Longrightarrow> 0 \<le> i \<Longrightarrow>
   0 \<le> h k (capacity ht) i \<and> h k (capacity ht) i < int (length (entries ht))"
  by (simp add: trapped_def)

lemma search_loop_trapped:
  assumes "ht_search_loop h ht k idx i = Some y"
  shows "\<not> (trapped h ht k \<and> 0 \<le> i \<and> 0 \<le> idx \<and> idx < int (length (entries ht)))"
  using assms
proof (induction h ht k idx i y rule: ht_search_loop.raw_induct [rotated 1, consumes 1])
  case (1 search_loop h ht k idx i y)
  show ?case
  proof
    assume a: "trapped h ht k \<and> 0 \<le> i \<and> 0 \<le> idx \<and> idx < int (length (entries ht))"
    with trapped_cell [of h ht k idx] obtain e where e: "entries ht ! nat idx = Entry e" "key e \<noteq> k"
      by blast
    with 1(2) a have "search_loop h ht k (h k (capacity ht) i) (i + 1) = Some y" by simp
    from 1(1) [OF this] a trapped_next [of h ht k i] show False by simp
  qed
qed

lemma search_trapped: "trapped h ht k \<Longrightarrow> ht_search h ht k = None"
proof (rule ccontr)
  assume t: "trapped h ht k" and "ht_search h ht k \<noteq> None"
  then obtain y where "ht_search_loop h ht k (h k (capacity ht) 0) 1 = Some y"
    by (auto simp: ht_search_def)
  from search_loop_trapped [OF this] t trapped_next [of h ht k 0] show False by simp
qed

lemma get_trapped: "trapped h ht k \<Longrightarrow> ht_get h ht k = None"
  by (simp add: ht_get_def search_trapped)

lemma delete_loop_trapped:
  assumes "ht_delete_loop h ht k idx i = Some y"
  shows "\<not> (trapped h ht k \<and> 0 \<le> i \<and> 0 \<le> idx \<and> idx < int (length (entries ht)))"
  using assms
proof (induction h ht k idx i y rule: ht_delete_loop.raw_induct [rotated 1, consumes 1])
  case (1 delete_loop h ht k idx i y)
  show ?case
  proof
    assume a: "trapped h ht k \<and> 0 \<le> i \<and> 0 \<le> idx \<and> idx < int (length (entries ht))"
    with trapped_cell [of h ht k idx] obtain e where e: "entries ht ! nat idx = Entry e" "key e \<noteq> k"
      by blast
    with 1(2) a have "delete_loop h ht k (h k (capacity ht) (i + 1)) (i + 1) = Some y" by simp
    from 1(1) [OF this] a trapped_next [of h ht k "i + 1"] show False by simp
  qed
qed

lemma delete_trapped:
  assumes "trapped h ht k" "capacity ht \<noteq> 0" "\<not> load ht < 10"
  shows "ht_delete h np n ht k = None"
proof (rule ccontr)
  assume "ht_delete h np n ht k \<noteq> None"
  with assms(2,3) obtain y where "ht_delete_loop h ht k (h k (capacity ht) 0) 0 = Some y"
    by (auto simp: ht_delete_def ht_delete_raw_def)
  from delete_loop_trapped [OF this] assms(1) trapped_next [of h ht k 0] show False by simp
qed

lemma insert_loop_trapped:
  assumes "ht_insert_loop h ht e idx i = Some y"
  shows "\<not> (trapped h ht (key e) \<and> 0 \<le> i \<and> 0 \<le> idx \<and> idx < int (length (entries ht)))"
  using assms
proof (induction h ht e idx i y rule: ht_insert_loop.raw_induct [rotated 1, consumes 1])
  case (1 insert_loop h ht e idx i y)
  show ?case
  proof
    assume a: "trapped h ht (key e) \<and> 0 \<le> i \<and> 0 \<le> idx \<and> idx < int (length (entries ht))"
    with trapped_cell [of h ht "key e" idx] obtain x where
      x: "entries ht ! nat idx = Entry x" "key x \<noteq> key e"
      by blast
    with 1(2) a have "insert_loop h ht e (h (key e) (capacity ht) i) (i + 1) = Some y" by simp
    from 1(1) [OF this] a trapped_next [of h ht "key e" i] show False by simp
  qed
qed

lemma insert_loop_trapped_start:
  assumes "trapped h ht k"
  shows "ht_insert_loop h ht (ht_entry_init k v) (h k (capacity ht) 0) 1 = None"
proof (rule ccontr)
  assume "ht_insert_loop h ht (ht_entry_init k v) (h k (capacity ht) 0) 1 \<noteq> None"
  then obtain y where
    "ht_insert_loop h ht (ht_entry_init k v) (h k (capacity ht) 0) 1 = Some y"
    by auto
  from insert_loop_trapped [OF this] assms trapped_next [of h ht k 0] show False by simp
qed

lemma insert_trapped:
  assumes "trapped h ht k" "capacity ht \<noteq> 0" "\<not> 70 < load ht"
  shows "ht_insert h np n ht k v = None"
  using assms by (simp add: ht_insert_def ht_insert_raw.simps insert_loop_trapped_start)

lemma all_entries_if_full:
  assumes "occupied ht = length (entries ht)" "j < length (entries ht)"
  shows "is_entry (entries ht ! j)"
proof (rule ccontr)
  assume n: "\<not> is_entry (entries ht ! j)"
  from assms(2) have "entries ht ! j \<in> set (entries ht)" by simp
  from length_filter_less [of "entries ht ! j" "entries ht" is_entry, OF this n] assms(1)
  show False by (simp add: occupied_def)
qed

lemma full_trapped:
  assumes cov: "probe_covers h (capacity ht)"
    and cap: "capacity ht = int (length (entries ht))"
    and full: "occupied ht = length (entries ht)"
    and fresh: "k \<notin> key ` entry_set ht"
  shows "trapped h ht k"
  unfolding trapped_def
proof (intro conjI allI impI)
  fix a :: int assume "0 \<le> a"
  with cov cap show "0 \<le> h k (capacity ht) a" "h k (capacity ht) a < int (length (entries ht))"
    by (simp_all add: probe_covers_def)
next
  fix j assume j: "j < length (entries ht)"
  from all_entries_if_full [OF full j] obtain e where e: "entries ht ! j = Entry e"
    by (cases "entries ht ! j") simp_all
  with j have "e \<in> entry_set ht" unfolding entry_set_nth by blast
  with fresh have "key e \<noteq> k" by auto
  with e show "other k (entries ht ! j)" by simp
qed

section \<open>Lemmas on the calls, and the sample table\<close>

lemma and_then_simps [simp]:
  "and_then None f = None"
  "and_then (Some (Inl e)) f = Some (Inl e)"
  "and_then (Some (Inr x)) f = f x"
  by (simp_all add: and_then_def)

lemma probe_stops_0:
  "0 \<le> h k (capacity ht) 0 \<Longrightarrow> h k (capacity ht) 0 < int (length (entries ht)) \<Longrightarrow>
   \<not> other k (entries ht ! nat (h k (capacity ht) 0)) \<Longrightarrow> probe_stops h ht k 0"
  by (simp add: probe_stops_def cell_def)

lemma probe_stops_1:
  "0 \<le> h k (capacity ht) 0 \<Longrightarrow> h k (capacity ht) 0 < int (length (entries ht)) \<Longrightarrow>
   0 \<le> h k (capacity ht) 1 \<Longrightarrow> h k (capacity ht) 1 < int (length (entries ht)) \<Longrightarrow>
   other k (entries ht ! nat (h k (capacity ht) 0)) \<Longrightarrow>
   \<not> other k (entries ht ! nat (h k (capacity ht) 1)) \<Longrightarrow> probe_stops h ht k (Suc 0)"
  by (auto simp: probe_stops_def cell_def le_Suc_eq)

lemma tombstone_scenario:
  fixes v1 v2 :: "'v option"
  assumes "collided h np k1 k2"
  shows "and_then (and_then (ht_insert h np n (ht_init np 4) k1 v1)
                     (\<lambda>t. ht_insert h np n t k2 v2))
           (\<lambda>t. ht_delete h np n t k1) = Some (Inr (tombstoned h k2 v2, 1))"
proof -
  from assms have np: "np 4 = 5" and ne: "k1 \<noteq> k2"
    and col: "h k1 5 0 = h k2 5 0"
    and r0: "0 \<le> h k2 5 0" "h k2 5 0 < 5" and r1: "0 \<le> h k2 5 1" "h k2 5 1 < 5"
    and step: "h k2 5 1 \<noteq> h k2 5 0"
    by (simp_all add: collided_def)
  define s where "s = nat (h k2 5 0)"
  define s' where "s' = nat (h k2 5 1)"
  have s: "s < 5" "s' < 5" "s \<noteq> s'" using r0 r1 step by (auto simp: s_def s'_def)
  define e1 :: "'v ht_entry" where "e1 = ht_entry_init k1 v1"
  define e2 :: "'v ht_entry" where "e2 = ht_entry_init k2 v2"
  define t0 :: "'v hash_table" where "t0 = ht_init np 4"
  define t1 where "t1 = ht_put t0 s e1"
  define t2 where "t2 = ht_put t1 s' e2"
  define t3 where "t3 = t2\<lparr>entries := (entries t2)[s := Sentinel], count := count t2 - 1\<rparr>"
  have t0: "capacity t0 = 5" "entries t0 = replicate 5 Null" "count t0 = 0"
    "base_capacity t0 = 4"
    by (simp_all add: t0_def eff_base_def np)
  have t1: "capacity t1 = 5" "entries t1 = (replicate 5 Null)[s := Entry e1]" "count t1 = 1"
    "base_capacity t1 = 4"
    using s by (simp_all add: t1_def t0)
  have t2: "capacity t2 = 5" "entries t2 = (replicate 5 Null)[s := Entry e1, s' := Entry e2]"
    "count t2 = 2" "base_capacity t2 = 4"
    using s by (simp_all add: t2_def t1)
  have st0: "probe_stops h t0 k1 0"
    using r0 r1 s by (intro probe_stops_0) (simp_all add: t0 col)
  have i1: "ht_insert h np n t0 k1 v1 = Some (Inr t1)"
    using insert_no_grow [OF _ _ st0, of np n v1]
    by (simp add: ht_insert_def t0 t1_def cell_def col s_def e1_def load_def)
  have st1: "probe_stops h t1 k2 (Suc 0)"
    using r0 r1 s ne by (intro probe_stops_1) (simp_all add: t1 s_def [symmetric] s'_def [symmetric] e1_def)
  have i2: "ht_insert h np n t1 k2 v2 = Some (Inr t2)"
    using insert_no_grow [OF _ _ st1, of np n v2]
    by (simp add: ht_insert_def t1 t2_def cell_def s'_def e2_def load_def)
  have st2: "probe_stops h t2 k1 0"
    using r0 r1 s ne by (intro probe_stops_0) (simp_all add: t2 col s_def [symmetric] e1_def)
  have d3: "ht_delete h np n t2 k1 = Some (Inr (t3, 1))"
    using delete_no_shrink [OF _ _ st2, of np n] s
    by (simp add: t2 t3_def cell_def col s_def [symmetric] ht_unput_def load_def)
  have "(replicate 5 Null)[s := Entry e1, s' := Entry e2, s := Sentinel] =
        (replicate 5 Null)[s := Sentinel, s' := Entry e2]"
    using s by (simp add: list_update_swap [of s s'])
  then have "t3 = tombstoned h k2 v2"
    by (simp add: t3_def tombstoned_def t2 s_def s'_def e2_def hash_table.equality)
  with i1 i2 d3 show ?thesis by (simp add: t0_def)
qed

lemma tombstoned_search:
  assumes "collided h np k1 k2"
  shows "ht_search h (tombstoned h k2 v2) k2 = Some (Inr None)"
proof -
  from assms have r0: "0 \<le> h k2 5 0" "h k2 5 0 < 5" and r1: "0 \<le> h k2 5 1" "h k2 5 1 < 5"
    and step: "h k2 5 1 \<noteq> h k2 5 0"
    by (simp_all add: collided_def)
  have ne: "nat (h k2 5 0) \<noteq> nat (h k2 5 1)" using r0 r1 step by auto
  have st: "probe_stops h (tombstoned h k2 v2) k2 0"
    using r0 r1 ne by (intro probe_stops_0) (simp_all add: tombstoned_def)
  from ht_search_run [OF st] r0 ne show ?thesis
    by (simp add: tombstoned_def cell_def)
qed

lemma collided_sample: "collided h_linear next_prime ''a'' ''f''"
  by (simp add: collided_def np4 h_linear_def key_sum_def)

lemma unput_fields [simp]:
  "capacity (fst (ht_unput ht p)) = capacity ht"
  "base_capacity (fst (ht_unput ht p)) = base_capacity ht"
  "length (entries (fst (ht_unput ht p))) = length (entries ht)"
  by (simp_all add: ht_unput_def)

lemma put_on_entry:
  "is_entry (entries ht ! p) \<Longrightarrow> ht_put ht p e = ht\<lparr>entries := (entries ht)[p := Entry e]\<rparr>"
  by (simp add: ht_put_def)

lemma get_after_put:
  assumes st: "probe_stops h ht k a"
  shows "ht_get h (ht_put ht (nat (cell h ht k a)) (ht_entry_init k v)) k = Some (Inr v)"
proof -
  let ?ht' = "ht_put ht (nat (cell h ht k a)) (ht_entry_init k v)"
  have st': "probe_stops h ?ht' k a" using st by (rule probe_stops_put_self) simp
  have "nat (cell h ht k a) < length (entries ht)" using st by (rule probe_stops_range)
  then have "entries ?ht' ! nat (cell h ?ht' k a) = Entry (ht_entry_init k v)" by simp
  with ht_search_run [OF st'] have "ht_search h ?ht' k = Some (Inr (Some (ht_entry_init k v)))"
    by simp
  then show ?thesis by (simp add: ht_get_def)
qed

lemma reachable_stop:
  assumes r: "reachable h ht" and e: "e \<in> entry_set ht" and st: "probe_stops h ht (key e) a"
  shows "entries ht ! nat (cell h ht (key e) a) = Entry e"
proof -
  from e obtain i where i: "i < length (entries ht)" "entries ht ! i = Entry e"
    unfolding entry_set_nth by blast
  with r obtain a' where a': "probe_stops h ht (key e) a'" "nat (cell h ht (key e) a') = i"
    unfolding reachable_def by blast
  from probe_stops_unique [OF st a'(1)] a'(2) i(2) show ?thesis by simp
qed

lemma stop_free_if_absent:
  assumes st: "probe_stops h ht k a" and ab: "\<forall>x\<in>entry_set ht. key x \<noteq> k"
  shows "\<not> is_entry (entries ht ! nat (cell h ht k a))"
proof
  assume "is_entry (entries ht ! nat (cell h ht k a))"
  then obtain x where x: "entries ht ! nat (cell h ht k a) = Entry x"
    by (cases "entries ht ! nat (cell h ht k a)") simp_all
  with probe_stops_at [OF st] have "key x = k" by simp
  moreover have "x \<in> entry_set ht"
    unfolding entry_set_nth using x probe_stops_range [OF st] by blast
  ultimately show False using ab by blast
qed

lemma clear_stop_cell:
  fixes ht :: "'v hash_table"
  assumes wf: "ht_wf ht" and kd: "keys_distinct ht" and st: "probe_stops h ht k a"
    and at: "entries ht ! nat (cell h ht k a) = Entry e"
  shows "\<exists>ht2. ht_unput ht (nat (cell h ht k a)) = (ht2, 1) \<and> count ht2 = count ht - 1 \<and>
           ht_search h ht2 k = Some (Inr None) \<and> ht_wf ht2 \<and> keys_distinct ht2 \<and>
           (\<forall>x\<in>entry_set ht2. key x \<noteq> k)"
proof -
  let ?p = "nat (cell h ht k a)"
  let ?ht2 = "ht\<lparr>entries := (entries ht)[?p := Sentinel], count := count ht - 1\<rparr>"
  have p: "?p < length (entries ht)" using st by (rule probe_stops_range)
  have ke: "key e = k" using probe_stops_at [OF st] at by simp
  have ie: "is_entry (entries ht ! ?p)" using at by simp
  have 1: "ht_unput ht ?p = (?ht2, 1)" using ie by (rule unput_entry)
  have st2: "probe_stops h ?ht2 k a" using st by (rule probe_stops_clear)
  have "cell h ?ht2 k a = cell h ht k a" by (simp add: cell_def)
  with ht_search_run [OF st2] p have 2: "ht_search h ?ht2 k = Some (Inr None)" by simp
  have 3: "ht_wf ?ht2" using wf p ie by (rule ht_wf_clear)
  have 4: "keys_distinct ?ht2" using kd by (rule keys_distinct_clear)
  have 5: "\<forall>x\<in>entry_set ?ht2. key x \<noteq> k"
  proof
    fix x assume "x \<in> entry_set ?ht2"
    from absent_clear [OF kd p at this] ke show "key x \<noteq> k" by simp
  qed
  show ?thesis
    apply (rule exI [of _ ?ht2])
    using 1 2 3 4 5 by simp
qed

lemma delete_present:
  fixes ht :: "'v hash_table"
  assumes wf: "ht_wf ht" and kd: "keys_distinct ht" and st: "probe_stops h ht k a"
    and at: "entries ht ! nat (cell h ht k a) = Entry e" and sr: "shrink_ready h np ht"
  shows "\<exists>ht2. ht_delete h np (Suc n) ht k = Some (Inr (ht2, 1)) \<and> count ht2 = count ht - 1 \<and>
           ht_search h ht2 k = Some (Inr None) \<and> ht_get h ht2 k = Some (Inr None) \<and>
           ht_wf ht2 \<and> keys_distinct ht2 \<and> (\<forall>x\<in>entry_set ht2. key x \<noteq> k)"
proof (cases "load ht < 10")
  case False
  from sr have c0: "capacity ht \<noteq> 0" by (simp add: shrink_ready_def)
  from clear_stop_cell [OF wf kd st at] obtain ht2 where ht2:
    "ht_unput ht (nat (cell h ht k a)) = (ht2, 1)" "count ht2 = count ht - 1"
    "ht_search h ht2 k = Some (Inr None)" "ht_wf ht2" "keys_distinct ht2"
    "\<forall>x\<in>entry_set ht2. key x \<noteq> k"
    by blast
  from delete_no_shrink [OF c0 False st, of np "Suc n"] ht2 show ?thesis
    by (intro exI [of _ ht2]) (simp add: ht_get_missing)
next
  case True
  from sr have c0: "capacity ht \<noteq> 0" by (simp add: shrink_ready_def)
  from sr True have rr: "resize_ready h np ht (base_capacity ht sdiv 2)"
    by (simp add: shrink_ready_def)
  from resize_total [OF rr, of n] obtain ht1 where ht1:
    "ht_resize h np (Suc n) ht (base_capacity ht sdiv 2) = Some (Inr ht1)"
    "ht_wf ht1" "reachable h ht1" "entry_set ht1 = entry_set ht" "occupied ht1 = occupied ht"
    by blast
  have ke: "key e = k" using probe_stops_at [OF st] at by simp
  have "e \<in> entry_set ht" unfolding entry_set_nth using at probe_stops_range [OF st] by blast
  with ht1(4) have "e \<in> entry_set ht1" by simp
  then obtain i where i: "i < length (entries ht1)" "entries ht1 ! i = Entry e"
    unfolding entry_set_nth by blast
  with ht1(3) ke obtain a' where a': "probe_stops h ht1 k a'" "nat (cell h ht1 k a') = i"
    unfolding reachable_def by blast
  from a'(2) i(2) have at1: "entries ht1 ! nat (cell h ht1 k a') = Entry e" by simp
  have kd1: "keys_distinct ht1" using ht1(3) by (rule reachable_keys_distinct)
  from clear_stop_cell [OF ht1(2) kd1 a'(1) at1] obtain ht2 where ht2:
    "ht_unput ht1 (nat (cell h ht1 k a')) = (ht2, 1)" "count ht2 = count ht1 - 1"
    "ht_search h ht2 k = Some (Inr None)" "ht_wf ht2" "keys_distinct ht2"
    "\<forall>x\<in>entry_set ht2. key x \<noteq> k"
    by blast
  have "count ht1 = count ht" using ht1(2,5) wf by (simp add: ht_wf_def)
  with delete_shrink [OF c0 True ht1(1) a'(1)] ht2 show ?thesis
    by (intro exI [of _ ht2]) (simp add: ht_get_missing)
qed

lemma delete_absent:
  fixes ht :: "'v hash_table"
  assumes wf: "ht_wf ht" and rdy: "delete_ready h np ht"
    and ab: "\<forall>x\<in>entry_set ht. key x \<noteq> k"
  shows "\<exists>ht'. ht_delete h np (Suc n) ht k = Some (Inr (ht', 0)) \<and> count ht' = count ht \<and>
           entry_set ht' = entry_set ht"
proof -
  from delete_walk [OF wf rdy, of n k] obtain ht1 a where
    w: "if load ht < 10
        then ht_resize h np (Suc n) ht (base_capacity ht sdiv 2) = Some (Inr ht1) \<and>
             reachable h ht1 \<and> entry_set ht1 = entry_set ht \<and>
             capacity ht1 = np (eff_base (base_capacity ht sdiv 2)) \<and>
             base_capacity ht1 = eff_base (base_capacity ht sdiv 2) \<and>
             occupied ht1 = occupied ht
        else ht1 = ht"
    and wf1: "ht_wf ht1" and st: "probe_stops h ht1 k a"
    and del: "ht_delete h np (Suc n) ht k = Some (Inr (ht_unput ht1 (nat (cell h ht1 k a))))"
    by blast
  have es: "entry_set ht1 = entry_set ht" using w by (simp split: if_splits)
  have cnt: "count ht1 = count ht" using w wf wf1 by (simp add: ht_wf_def split: if_splits)
  from ab es have "\<forall>x\<in>entry_set ht1. key x \<noteq> k" by simp
  from stop_free_if_absent [OF st this]
  have "ht_unput ht1 (nat (cell h ht1 k a)) = (ht1, 0)" by (rule unput_free)
  with del es cnt show ?thesis by (intro exI [of _ ht1]) simp
qed

lemma insert_fresh_step:
  fixes ht :: "'v hash_table"
  assumes wf: "ht_wf ht" and r: "reachable h ht" and cov: "probe_covers h (capacity ht)"
    and load: "\<not> 70 < load ht"
    and room: "occupied ht < length (entries ht)"
    and fresh: "k \<notin> key ` entry_set ht"
  shows "\<exists>ht'. ht_insert h np n ht k v = Some (Inr ht') \<and>
           capacity ht' = capacity ht \<and> base_capacity ht' = base_capacity ht \<and>
           ht_wf ht' \<and> reachable h ht' \<and>
           entry_set ht' = insert (ht_entry_init k v) (entry_set ht) \<and>
           occupied ht' = occupied ht + 1"
proof -
  from insert_total [OF wf r cov load room, of np n k v] obtain ht' where ht':
    "ht_insert_raw h np n ht k v = Some (Inr ht')"
    "capacity ht' = capacity ht" "base_capacity ht' = base_capacity ht"
    "ht_wf ht'" "reachable h ht'"
    "entry_set ht' = insert (ht_entry_init k v) {x \<in> entry_set ht. key x \<noteq> k}"
    "occupied ht' = (if k \<in> key ` entry_set ht then occupied ht else occupied ht + 1)"
    by blast
  have "{x \<in> entry_set ht. key x \<noteq> k} = entry_set ht" using fresh by auto
  with ht' fresh show ?thesis by (intro exI [of _ ht']) (simp add: ht_insert_def)
qed



lemma insert_splits:
  "70 < load ht \<Longrightarrow>
   ht_insert h np m ht k v =
     and_then (ht_resize h np m ht (int32 (base_capacity ht * 2)))
       (\<lambda>g. ht_insert_loop h g (ht_entry_init k v) (h k (capacity g) 0) 1)"
  "capacity ht \<noteq> 0 \<Longrightarrow> \<not> 70 < load ht \<Longrightarrow>
   ht_insert h np m ht k v = ht_insert_loop h ht (ht_entry_init k v) (h k (capacity ht) 0) 1"
  by (auto simp: ht_insert_def ht_insert_raw.simps ht_resize_up.simps and_then_def
      dest: load_trigger_capacity split: option.splits sum.splits)

text \<open>
  On a table whose count and capacity are those of its array, the \<^verbatim>\<open>int\<close> load is
  never above the exact one, so a table whose exact load is below 10 is shrunk by a deletion,
  and \<open>delete_ready\<close> is the same condition for it with either load.
\<close>

lemma delete_ready_low_load:
  assumes "ht_wf ht" "(count ht * 100) sdiv capacity ht < 10"
  shows "delete_ready h np ht \<longleftrightarrow>
         capacity ht \<noteq> 0 \<and>
         walk_ready h np ht ((count ht * 100) sdiv capacity ht < 10) (base_capacity ht sdiv 2)"
proof (cases "capacity ht = 0")
  case True
  then show ?thesis by (simp add: delete_ready_def)
next
  case False
  with assms(1) have "0 \<le> count ht" "0 < capacity ht" by (simp_all add: ht_wf_def)
  from load_le [OF this] assms(2) have "load ht < 10" by simp
  with assms(2) show ?thesis by (simp add: delete_ready_def)
qed

section \<open>Tables with room\<close>

text \<open>
  Away from the two defects of the walks (the sentinel that ends them, the table without a
  free cell), the calls do what their comments say. The lemmas of this section are stated
  for tables on which a walk meets a free or matching cell (\<open>insert_ready\<close>,
  \<open>delete_ready\<close>, \<open>shrink_ready\<close>, \<open>resize_ready\<close>).

  An insertion of \<open>k\<close> with \<open>v\<close> returns, and \<^verbatim>\<open>ht_get\<close> on the table it leaves
  returns \<open>v\<close>.
\<close>

lemma insert_then_get:
  fixes ht :: "'v hash_table"
  assumes "ht_wf ht" and "insert_ready h np ht"
  shows "\<exists>ht'. ht_insert h np (Suc n) ht k v = Some (Inr ht') \<and> ht_get h ht' k = Some (Inr v)"
proof -
  from insert_walk [OF assms, of n k v] obtain ht1 a where
    st: "probe_stops h ht1 k a"
    and ins: "ht_insert h np (Suc n) ht k v =
       Some (Inr (ht_put ht1 (nat (cell h ht1 k a)) (ht_entry_init k v)))"
    by blast
  let ?ht' = "ht_put ht1 (nat (cell h ht1 k a)) (ht_entry_init k v)"
  have st': "probe_stops h ?ht' k a" using st by (rule probe_stops_put_self) simp
  have "nat (cell h ht1 k a) < length (entries ht1)" using st by (rule probe_stops_range)
  then have "entries ?ht' ! nat (cell h ?ht' k a) = Entry (ht_entry_init k v)" by simp
  with ht_search_run [OF st'] have "ht_search h ?ht' k = Some (Inr (Some (ht_entry_init k v)))"
    by simp
  then have "ht_get h ?ht' k = Some (Inr v)" by (simp add: ht_get_def)
  with ins show ?thesis by blast
qed

text \<open>
  On a table with distinct keys that does not hold \<open>k\<close>, an insertion of \<open>k\<close> followed
  by a deletion of \<open>k\<close> returns 1, the count goes down by exactly 1, \<^verbatim>\<open>ht_search\<close> and
  \<^verbatim>\<open>ht_get\<close> then find nothing, and \<open>k\<close> is in no cell any more. Deleting a key that no
  cell holds returns 0 and keeps the count.
\<close>

lemma insert_then_delete:
  fixes ht :: "'v hash_table"
  assumes "ht_wf ht" and "keys_distinct ht" and "key_absent ht k" and "insert_ready h np ht"
  shows "(\<exists>ht1. ht_insert h np (Suc n) ht k v = Some (Inr ht1) \<and>
            (shrink_ready h np ht1 \<longrightarrow>
               (\<exists>ht2. ht_delete h np (Suc n) ht1 k = Some (Inr (ht2, 1)) \<and>
                      count ht2 = count ht1 - 1 \<and>
                      ht_search h ht2 k = Some (Inr None) \<and> ht_get h ht2 k = Some (Inr None) \<and>
                      ht_wf ht2 \<and> key_absent ht2 k))) \<and>
         (\<forall>hta :: 'v hash_table. \<forall>ka.
            ht_wf hta \<and> delete_ready h np hta \<and> key_absent hta ka \<longrightarrow>
              (\<exists>htb. ht_delete h np (Suc n) hta ka = Some (Inr (htb, 0)) \<and>
                     count htb = count hta \<and> key_absent htb ka))"
proof (intro conjI allI impI)
  let ?e = "ht_entry_init k v"
  from insert_walk [OF assms(1,4), of n k v] obtain ht0 a where
    w: "if 70 < load ht
        then ht_resize h np (Suc n) ht (int32 (base_capacity ht * 2)) = Some (Inr ht0) \<and>
             reachable h ht0 \<and> entry_set ht0 = entry_set ht \<and>
             capacity ht0 = np (eff_base (int32 (base_capacity ht * 2))) \<and>
             base_capacity ht0 = eff_base (int32 (base_capacity ht * 2)) \<and>
             occupied ht0 = occupied ht
        else ht0 = ht"
    and wf0: "ht_wf ht0" and st0: "probe_stops h ht0 k a"
    and ins: "ht_insert h np (Suc n) ht k v = Some (Inr (ht_put ht0 (nat (cell h ht0 k a)) ?e))"
    by blast
  define ht1 where "ht1 = ht_put ht0 (nat (cell h ht0 k a)) ?e"
  have p0: "nat (cell h ht0 k a) < length (entries ht0)" using st0 by (rule probe_stops_range)
  have es0: "entry_set ht0 = entry_set ht" using w by (simp split: if_splits)
  have kd0: "keys_distinct ht0"
    using w assms(2) reachable_keys_distinct [of h ht0] by (simp split: if_splits)
  have ab0: "x \<in> entry_set ht0 \<Longrightarrow> key x \<noteq> key ?e" for x
    using assms(3) es0 by (simp add: key_absent_def)
  have wf1: "ht_wf ht1" unfolding ht1_def using wf0 p0 by (rule ht_wf_put)
  have kd1: "keys_distinct ht1" unfolding ht1_def using kd0 ab0 by (rule keys_distinct_put_absent)
  have st1: "probe_stops h ht1 k a" unfolding ht1_def using st0 by (rule probe_stops_put_self) simp
  have at1: "entries ht1 ! nat (cell h ht1 k a) = Entry ?e" unfolding ht1_def using p0 by simp
  have "\<exists>ht2. ht_delete h np (Suc n) ht1 k = Some (Inr (ht2, 1)) \<and> count ht2 = count ht1 - 1 \<and>
           ht_search h ht2 k = Some (Inr None) \<and> ht_get h ht2 k = Some (Inr None) \<and>
           ht_wf ht2 \<and> key_absent ht2 k"
    if "shrink_ready h np ht1"
    using delete_present [OF wf1 kd1 st1 at1 that, of n] unfolding key_absent_def by blast
  with ins show "\<exists>ht1. ht_insert h np (Suc n) ht k v = Some (Inr ht1) \<and>
            (shrink_ready h np ht1 \<longrightarrow>
               (\<exists>ht2. ht_delete h np (Suc n) ht1 k = Some (Inr (ht2, 1)) \<and>
                      count ht2 = count ht1 - 1 \<and>
                      ht_search h ht2 k = Some (Inr None) \<and> ht_get h ht2 k = Some (Inr None) \<and>
                      ht_wf ht2 \<and> key_absent ht2 k))"
    unfolding ht1_def by blast
next
  fix hta :: "'v hash_table" and ka
  assume a: "ht_wf hta \<and> delete_ready h np hta \<and> key_absent hta ka"
  then have "ht_wf hta" "delete_ready h np hta" "\<forall>x\<in>entry_set hta. key x \<noteq> ka"
    by (simp_all add: key_absent_def)
  from delete_absent [OF this, of n] a
  show "\<exists>htb. ht_delete h np (Suc n) hta ka = Some (Inr (htb, 0)) \<and>
              count htb = count hta \<and> key_absent htb ka"
    by (auto simp: key_absent_def)
qed

text \<open>
  \<^verbatim>\<open>ht_resize\<close> at a base \<open>b\<close> that is not negative, on a table with distinct keys
  whose count is the number of its entries, and with a new capacity that takes the entries
  without a nested resize: the resize returns, the count is unchanged, and every key that
  \<^verbatim>\<open>ht_search\<close> found before is found after, with the same entry.
\<close>

lemma resize_preserves_entries:
  fixes ht :: "'v hash_table"
  assumes "resize_ready h np ht b" and "count ht = int (occupied ht)"
  shows "\<exists>ht'. ht_resize h np (Suc n) ht b = Some (Inr ht') \<and> count ht' = count ht \<and>
           (\<forall>k r. ht_search h ht k = Some (Inr (Some r)) \<longrightarrow>
                  ht_search h ht' k = Some (Inr (Some r)) \<and>
                  ht_get h ht' k = Some (Inr (val r)))"
proof -
  from resize_total [OF assms(1), of n] obtain ht' where ht':
    "ht_resize h np (Suc n) ht b = Some (Inr ht')" "ht_wf ht'" "reachable h ht'"
    "entry_set ht' = entry_set ht" "occupied ht' = occupied ht"
    by blast
  have cnt: "count ht' = count ht" using ht'(2,5) assms(2) by (simp add: ht_wf_def)
  have keep: "ht_search h ht' k = Some (Inr (Some r)) \<and> ht_get h ht' k = Some (Inr (val r))"
    if "ht_search h ht k = Some (Inr (Some r))" for k r
  proof -
    from ht_search_found [OF that] ht'(4) have "r \<in> entry_set ht'" "key r = k" by simp_all
    with reachable_search_entry [OF ht'(3), of r]
    have "ht_search h ht' k = Some (Inr (Some r))" by simp
    then show ?thesis by (simp add: ht_get_found)
  qed
  from ht'(1) cnt keep show ?thesis by blast
qed

text \<open>
  Two insertions of \<open>k\<close>: the second one, after its resize if the load asks for one, finds
  the entry of the first in a cell \<open>p\<close> and leaves the table it walked with nothing
  changed but that cell, which holds the new entry.
\<close>

lemma insert_twice_overwrites:
  fixes ht :: "'v hash_table"
  assumes "ht_wf ht" and "insert_ready h np ht"
  shows "\<exists>ht1. ht_insert h np (Suc n) ht k v1 = Some (Inr ht1) \<and>
           (insert_ready h np ht1 \<longrightarrow>
              (\<exists>ht1' p ht2.
                 (if 70 < load ht1
                  then ht_resize_up h np (Suc n) ht1 else Some (Inr ht1)) = Some (Inr ht1') \<and>
                 p < length (entries ht1') \<and> entries ht1' ! p = Entry (ht_entry_init k v1) \<and>
                 ht_insert h np (Suc n) ht1 k v2 = Some (Inr ht2) \<and>
                 ht2 = ht1'\<lparr>entries := (entries ht1')[p := Entry (ht_entry_init k v2)]\<rparr> \<and>
                 count ht2 = count ht1 \<and> ht_get h ht2 k = Some (Inr v2)))"
proof -
  let ?e1 = "ht_entry_init k v1" and ?e2 = "ht_entry_init k v2"
  from insert_walk [OF assms, of n k v1] obtain ht0 a where
    wf0: "ht_wf ht0" and st0: "probe_stops h ht0 k a"
    and ins1: "ht_insert h np (Suc n) ht k v1 = Some (Inr (ht_put ht0 (nat (cell h ht0 k a)) ?e1))"
    by blast
  define ht1 where "ht1 = ht_put ht0 (nat (cell h ht0 k a)) ?e1"
  have p0: "nat (cell h ht0 k a) < length (entries ht0)" using st0 by (rule probe_stops_range)
  have wf1: "ht_wf ht1" unfolding ht1_def using wf0 p0 by (rule ht_wf_put)
  have st1: "probe_stops h ht1 k a" unfolding ht1_def using st0 by (rule probe_stops_put_self) simp
  have at1: "entries ht1 ! nat (cell h ht1 k a) = Entry ?e1" unfolding ht1_def using p0 by simp
  have in1: "?e1 \<in> entry_set ht1"
    unfolding entry_set_nth using at1 probe_stops_range [OF st1] by blast
  have second: "\<exists>ht1' p ht2.
      (if 70 < load ht1
       then ht_resize_up h np (Suc n) ht1 else Some (Inr ht1)) = Some (Inr ht1') \<and>
      p < length (entries ht1') \<and> entries ht1' ! p = Entry ?e1 \<and>
      ht_insert h np (Suc n) ht1 k v2 = Some (Inr ht2) \<and>
      ht2 = ht1'\<lparr>entries := (entries ht1')[p := Entry ?e2]\<rparr> \<and>
      count ht2 = count ht1 \<and> ht_get h ht2 k = Some (Inr v2)"
    if rdy: "insert_ready h np ht1"
  proof -
    from insert_walk [OF wf1 rdy, of n k v2] obtain ht1' a' where
      w: "if 70 < load ht1
          then ht_resize h np (Suc n) ht1 (int32 (base_capacity ht1 * 2)) = Some (Inr ht1') \<and>
               reachable h ht1' \<and> entry_set ht1' = entry_set ht1 \<and>
               capacity ht1' = np (eff_base (int32 (base_capacity ht1 * 2))) \<and>
               base_capacity ht1' = eff_base (int32 (base_capacity ht1 * 2)) \<and>
               occupied ht1' = occupied ht1
          else ht1' = ht1"
      and wf': "ht_wf ht1'" and st': "probe_stops h ht1' k a'"
      and ins2: "ht_insert h np (Suc n) ht1 k v2 =
         Some (Inr (ht_put ht1' (nat (cell h ht1' k a')) ?e2))"
      by blast
    let ?p = "nat (cell h ht1' k a')"
    have p: "?p < length (entries ht1')" using st' by (rule probe_stops_range)
    have grown: "(if 70 < load ht1
       then ht_resize_up h np (Suc n) ht1 else Some (Inr ht1)) = Some (Inr ht1')"
      using w by (simp add: ht_resize_up.simps split: if_splits)
    have at: "entries ht1' ! ?p = Entry ?e1"
    proof (cases "70 < load ht1")
      case True
      with w have "reachable h ht1'" "?e1 \<in> entry_set ht1'" using in1 by simp_all
      from reachable_stop [OF this] st' show ?thesis by simp
    next
      case False
      with w have eq: "ht1' = ht1" by simp
      with st' st1 have "a' = a" using probe_stops_unique by blast
      with eq at1 show ?thesis by simp
    qed
    have cnt: "count ht1' = count ht1"
      using w wf' wf1 by (simp add: ht_wf_def split: if_splits)
    have "is_entry (entries ht1' ! ?p)" using at by simp
    then have put: "ht_put ht1' ?p ?e2 = ht1'\<lparr>entries := (entries ht1')[?p := Entry ?e2]\<rparr>"
      by (rule put_on_entry)
    have c: "count (ht_put ht1' ?p ?e2) = count ht1" using put cnt by simp
    have g: "ht_get h (ht_put ht1' ?p ?e2) k = Some (Inr v2)"
      using st' by (rule get_after_put)
    show ?thesis
      apply (rule exI [of _ ht1'])
      apply (rule exI [of _ ?p])
      apply (rule exI [of _ "ht_put ht1' ?p ?e2"])
      using grown p at ins2 put c g by simp
  qed
  from ins1 second show ?thesis unfolding ht1_def by blast
qed

section \<open>The claims\<close>

text \<open>
  Claim C1 (tombstone reachability), as the code has it: after inserting two colliding keys
  and deleting the first, the entry of the second is still in the array, and
  \<^verbatim>\<open>ht_search\<close> for it ends at the sentinel and reports that nothing was found. The claim
  asks for the opposite.
\<close>

theorem search_stops_at_tombstone:
  fixes v1 v2 :: "'v option"
  assumes "collided h np k1 k2"
  shows "\<exists>t. and_then (and_then (ht_insert h np n (ht_init np 4) k1 v1)
                      (\<lambda>t. ht_insert h np n t k2 v2))
                    (\<lambda>t. ht_delete h np n t k1) = Some (Inr (t, 1)) \<and>
             Entry (ht_entry_init k2 v2) \<in> set (entries t) \<and>
             ht_search h t k2 = Some (Inr None) \<and> ht_get h t k2 = Some (Inr None)"
proof -
  from assms have r1: "0 \<le> h k2 5 1" "h k2 5 1 < 5" by (simp_all add: collided_def)
  let ?t = "tombstoned h k2 v2"
  have "entries ?t ! nat (h k2 5 1) = Entry (ht_entry_init k2 v2)"
    using r1 by (simp add: tombstoned_def)
  moreover have "nat (h k2 5 1) < length (entries ?t)" using r1 by (simp add: tombstoned_def)
  ultimately have "Entry (ht_entry_init k2 v2) \<in> set (entries ?t)" by (metis nth_mem)
  with tombstone_scenario [OF assms, of n v1 v2] tombstoned_search [OF assms, of v2]
  show ?thesis by (intro exI [of _ ?t]) (simp add: ht_get_missing)
qed

theorem search_stops_at_tombstone_witness:
  "collided h_linear next_prime ''a'' ''f'' \<and>
   (\<exists>t. and_then (and_then (ht_insert h_linear next_prime 0 (ht_init next_prime 4) ''a'' (Some (1::nat)))
                     (\<lambda>t. ht_insert h_linear next_prime 0 t ''f'' (Some 2)))
           (\<lambda>t. ht_delete h_linear next_prime 0 t ''a'') = Some (Inr (t, 1)) \<and>
         Entry (ht_entry_init ''f'' (Some 2)) \<in> set (entries t) \<and>
         ht_search h_linear t ''f'' = Some (Inr None) \<and> ht_get h_linear t ''f'' = Some (Inr None))"
  using search_stops_at_tombstone [OF collided_sample, of 0 "Some (1::nat)" "Some 2"] collided_sample
  by simp

text \<open>
  Claim C2 (insert match precedence), as the code has it. After inserting two colliding keys
  and deleting the first, the first cell of the second key's probe sequence holds the
  sentinel and the second cell holds the key's entry. Inserting that key again installs the
  new entry in the sentinel's cell, leaves the matching entry in the second cell as it is,
  and adds one to the count. The claim asks for the matching entry to be overwritten and for
  the sentinel to be passed over.
\<close>

theorem insert_reuses_tombstone:
  fixes v1 v2 v3 :: "'v option"
  assumes "collided h np k1 k2"
  shows "\<exists>t t'. and_then (and_then (ht_insert h np n (ht_init np 4) k1 v1)
                          (\<lambda>t. ht_insert h np n t k2 v2))
                  (\<lambda>t. ht_delete h np n t k1) = Some (Inr (t, 1)) \<and>
               entries t ! nat (h k2 5 0) = Sentinel \<and>
               entries t ! nat (h k2 5 1) = Entry (ht_entry_init k2 v2) \<and>
               ht_insert h np n t k2 v3 = Some (Inr t') \<and>
               entries t' ! nat (h k2 5 0) = Entry (ht_entry_init k2 v3) \<and>
               entries t' ! nat (h k2 5 1) = Entry (ht_entry_init k2 v2) \<and>
               count t' = count t + 1"
proof -
  from assms have r0: "0 \<le> h k2 5 0" "h k2 5 0 < 5" and r1: "0 \<le> h k2 5 1" "h k2 5 1 < 5"
    and step: "h k2 5 1 \<noteq> h k2 5 0"
    by (simp_all add: collided_def)
  define s where "s = nat (h k2 5 0)"
  define s' where "s' = nat (h k2 5 1)"
  have s: "s < 5" "s' < 5" "s \<noteq> s'" using r0 r1 step by (auto simp: s_def s'_def)
  let ?t3 = "tombstoned h k2 v2"
  let ?t = "ht_put ?t3 s (ht_entry_init k2 v3)"
  have t3: "capacity ?t3 = 5" "count ?t3 = 1"
    "entries ?t3 = (replicate 5 Null)[s := Sentinel, s' := Entry (ht_entry_init k2 v2)]"
    by (simp_all add: tombstoned_def s_def s'_def)
  have b: "entries ?t3 ! s = Sentinel" "entries ?t3 ! s' = Entry (ht_entry_init k2 v2)"
    unfolding t3 using s by simp_all
  have st: "probe_stops h ?t3 k2 0"
    using r0 r1 s by (intro probe_stops_0) (simp_all add: t3 s_def [symmetric])
  have i4: "ht_insert h np n ?t3 k2 v3 = Some (Inr ?t)"
    using insert_no_grow [OF _ _ st, of np n v3]
    by (simp add: ht_insert_def t3(1,2) cell_def s_def load_def)
  have a: "entries ?t ! s = Entry (ht_entry_init k2 v3)" "entries ?t ! s' = Entry (ht_entry_init k2 v2)"
    using s by (simp_all add: t3)
  have cnt: "count ?t = count ?t3 + 1" using s by (simp add: t3)
  show ?thesis
    apply (rule exI [of _ ?t3])
    apply (rule exI [of _ ?t])
    using tombstone_scenario [OF assms, of n v1 v2] i4 a b cnt
    by (simp add: s_def s'_def)
qed

theorem insert_reuses_tombstone_witness:
  "collided h_linear next_prime ''a'' ''f'' \<and>
   (\<exists>t t'. and_then (and_then
                (ht_insert h_linear next_prime 0 (ht_init next_prime 4) ''a'' (Some (1::nat)))
                (\<lambda>t. ht_insert h_linear next_prime 0 t ''f'' (Some 2)))
              (\<lambda>t. ht_delete h_linear next_prime 0 t ''a'') = Some (Inr (t, 1)) \<and>
           entries t ! nat (h_linear ''f'' 5 0) = Sentinel \<and>
           entries t ! nat (h_linear ''f'' 5 1) = Entry (ht_entry_init ''f'' (Some 2)) \<and>
           ht_insert h_linear next_prime 0 t ''f'' (Some 3) = Some (Inr t') \<and>
           entries t' ! nat (h_linear ''f'' 5 0) = Entry (ht_entry_init ''f'' (Some 3)) \<and>
           entries t' ! nat (h_linear ''f'' 5 1) = Entry (ht_entry_init ''f'' (Some 2)) \<and>
           count t' = count t + 1)"
  using insert_reuses_tombstone [OF collided_sample, of 0 "Some (1::nat)" "Some 2" "Some 3"]
    collided_sample
  by simp

text \<open>
  Claim C3 (no duplicate keys), as the code has it: inserting the second key again after the
  deletion puts a new entry into the sentinel's cell and counts it, so two cells hold the same
  key and the count, 2, is not the number of distinct keys, 1.
\<close>

theorem insert_duplicates_key:
  fixes v1 v2 v3 :: "'v option"
  assumes "collided h np k1 k2"
  shows "\<exists>t. and_then (and_then (and_then (ht_insert h np n (ht_init np 4) k1 v1)
                                (\<lambda>t. ht_insert h np n t k2 v2))
                      (\<lambda>t. ht_delete h np n t k1))
               (\<lambda>(t, r). ht_insert h np n t k2 v3) = Some (Inr t) \<and>
             entries t ! nat (h k2 5 0) = Entry (ht_entry_init k2 v3) \<and>
             entries t ! nat (h k2 5 1) = Entry (ht_entry_init k2 v2) \<and>
             nat (h k2 5 0) \<noteq> nat (h k2 5 1) \<and>
             nat (h k2 5 0) < length (entries t) \<and> nat (h k2 5 1) < length (entries t) \<and>
             \<not> keys_distinct t \<and> count t = 2 \<and> key ` entry_set t = {k2}"
proof -
  from assms have r0: "0 \<le> h k2 5 0" "h k2 5 0 < 5" and r1: "0 \<le> h k2 5 1" "h k2 5 1 < 5"
    and step: "h k2 5 1 \<noteq> h k2 5 0"
    by (simp_all add: collided_def)
  define s where "s = nat (h k2 5 0)"
  define s' where "s' = nat (h k2 5 1)"
  have s: "s < 5" "s' < 5" "s \<noteq> s'" using r0 r1 step by (auto simp: s_def s'_def)
  let ?t3 = "tombstoned h k2 v2"
  let ?t = "ht_put ?t3 s (ht_entry_init k2 v3)"
  have t3: "capacity ?t3 = 5" "count ?t3 = 1"
    "entries ?t3 = (replicate 5 Null)[s := Sentinel, s' := Entry (ht_entry_init k2 v2)]"
    by (simp_all add: tombstoned_def s_def s'_def)
  have st: "probe_stops h ?t3 k2 0"
    using r0 r1 s by (intro probe_stops_0) (simp_all add: t3 s_def [symmetric])
  have i4: "ht_insert h np n ?t3 k2 v3 = Some (Inr ?t)"
    using insert_no_grow [OF _ _ st, of np n v3]
    by (simp add: ht_insert_def t3(1,2) cell_def s_def load_def)
  have es: "entries ?t = (replicate 5 Null)[s := Entry (ht_entry_init k2 v3), s' := Entry (ht_entry_init k2 v2)]"
    using s by (simp add: t3 list_update_swap [of s s'])
  have a: "entries ?t ! s = Entry (ht_entry_init k2 v3)" "entries ?t ! s' = Entry (ht_entry_init k2 v2)"
    unfolding es using s by simp_all
  have len: "s < length (entries ?t)" "s' < length (entries ?t)" unfolding es using s by simp_all
  have nd: "\<not> keys_distinct ?t"
  proof
    assume "keys_distinct ?t"
    from keys_distinctD [OF this len a] s(3) show False by simp
  qed
  have cnt: "count ?t = 2" using s by (simp add: t3)
  have ks: "key ` entry_set ?t = {k2}"
  proof (intro equalityI subsetI)
    fix k assume "k \<in> key ` entry_set ?t"
    then obtain x i where x: "key x = k" "i < length (entries ?t)" "entries ?t ! i = Entry x"
      by (auto simp: entry_set_nth)
    then have "x = ht_entry_init k2 v3 \<or> x = ht_entry_init k2 v2"
      unfolding es by (cases "i = s'"; cases "i = s") (use s in simp_all)
    with x(1) show "k \<in> {k2}" by auto
  next
    fix k assume "k \<in> {k2}"
    moreover have "ht_entry_init k2 v3 \<in> entry_set ?t"
      unfolding entry_set_nth using a(1) len(1) by blast
    ultimately show "k \<in> key ` entry_set ?t" by force
  qed
  from tombstone_scenario [OF assms, of n v1 v2] i4 a len nd cnt ks s(3)
  show ?thesis by (intro exI [of _ ?t]) (simp add: s_def s'_def)
qed

theorem insert_duplicates_key_witness:
  "collided h_linear next_prime ''a'' ''f'' \<and>
   (\<exists>t. and_then (and_then (and_then
             (ht_insert h_linear next_prime 0 (ht_init next_prime 4) ''a'' (Some (1::nat)))
             (\<lambda>t. ht_insert h_linear next_prime 0 t ''f'' (Some 2)))
             (\<lambda>t. ht_delete h_linear next_prime 0 t ''a''))
           (\<lambda>(t, r). ht_insert h_linear next_prime 0 t ''f'' (Some 3)) = Some (Inr t) \<and>
         entries t ! nat (h_linear ''f'' 5 0) = Entry (ht_entry_init ''f'' (Some 3)) \<and>
         entries t ! nat (h_linear ''f'' 5 1) = Entry (ht_entry_init ''f'' (Some 2)) \<and>
         nat (h_linear ''f'' 5 0) \<noteq> nat (h_linear ''f'' 5 1) \<and>
         nat (h_linear ''f'' 5 0) < length (entries t) \<and>
         nat (h_linear ''f'' 5 1) < length (entries t) \<and>
         \<not> keys_distinct t \<and> count t = 2 \<and> key ` entry_set t = {''f''})"
  using insert_duplicates_key [OF collided_sample, of 0 "Some (1::nat)" "Some 2" "Some 3"]
    collided_sample
  by simp

text \<open>
  Claim C4 (round trip), as the code has it on a table that the entry points fill. When the
  sizer returns 2 for 1 and for 2, \<^verbatim>\<open>ht_init (1)\<close> has two cells, and two insertions of
  distinct keys return (the loads they see are 0 and 50) and leave both cells occupied. The
  insertion of a third key sees a load of 100 and resizes to base 2, for which the capacity
  is 2 again; the rebuilt table has its two cells occupied by the two other keys, and the
  walk on it meets no null cell, no sentinel and no entry with the key. The call returns
  under no resize budget, so no \<^verbatim>\<open>ht_get\<close> comes after it. The claim asks for the
  insertion to return and for \<^verbatim>\<open>ht_get\<close> to give the value back.
\<close>

theorem insert_never_returns_on_full_table:
  fixes v1 v2 v3 :: "'v option"
  assumes np: "np 1 = 2" "np 2 = 2" and cov: "probe_covers h 2" and ks: "distinct [k1, k2, k3]"
  shows "\<exists>t. and_then (ht_insert h np n (ht_init np 1) k1 v1) (\<lambda>t. ht_insert h np n t k2 v2) =
               Some (Inr t) \<and>
             capacity t = 2 \<and> count t = 2 \<and> k3 \<notin> key ` entry_set t \<and>
             (\<forall>m. ht_insert h np m t k3 v3 = None) \<and>
             (\<forall>m. and_then (ht_insert h np m t k3 v3) (\<lambda>t'. ht_get h t' k3) = None)"
proof -
  let ?e1 = "ht_entry_init k1 v1" and ?e2 = "ht_entry_init k2 v2"
  define t0 :: "'v hash_table" where "t0 = ht_init np 1"
  have t0: "capacity t0 = 2" "base_capacity t0 = 1" "ht_wf t0" "reachable h t0"
    "entry_set t0 = {}" "occupied t0 = 0"
    using np by (simp_all add: t0_def eff_base_def ht_wf_init reachable_init)
  have len: "ht_wf t \<Longrightarrow> capacity t = 2 \<Longrightarrow>
      length (entries t) = 2 \<and> count t = int (occupied t) \<and>
      load t = int (occupied t) * 100 sdiv 2"
    for t :: "'v hash_table"
    using load_wf [of t] by (simp add: ht_wf_def)
  from insert_fresh_step [of t0 h k1 np n v1] t0 cov len [of t0]
  obtain t1 where t1: "ht_insert h np n t0 k1 v1 = Some (Inr t1)"
    "capacity t1 = 2" "base_capacity t1 = 1" "ht_wf t1" "reachable h t1"
    "entry_set t1 = {?e1}" "occupied t1 = 1"
    by auto
  from insert_fresh_step [of t1 h k2 np n v2] t1 cov len [of t1] ks
  obtain t2 where t2: "ht_insert h np n t1 k2 v2 = Some (Inr t2)"
    "capacity t2 = 2" "base_capacity t2 = 1" "ht_wf t2" "reachable h t2"
    "entry_set t2 = {?e2, ?e1}" "occupied t2 = 2"
    by auto
  have c2: "count t2 = 2" "load t2 = 100" "length (entries t2) = 2"
    using len [of t2] t2 by simp_all
  have fr: "k3 \<notin> key ` entry_set t2" using t2(6) ks by auto
  have hang: "ht_insert h np m t2 k3 v3 = None" for m
  proof (cases m)
    case 0
    with c2 t2(3) show ?thesis by (simp add: insert_splits(1) ht_resize.simps)
  next
    case (Suc m')
    have rr: "resize_ready h np t2 2"
      using np cov t2 c2 reachable_keys_distinct [OF t2(5)]
      by (simp add: resize_ready_def eff_base_def)
    from resize_total [OF rr, of m'] obtain t' where t':
      "ht_resize h np (Suc m') t2 2 = Some (Inr t')" "capacity t' = np (eff_base 2)"
      "ht_wf t'" "entry_set t' = entry_set t2" "occupied t' = occupied t2"
      by blast
    from t'(2,3) np have cap: "capacity t' = int (length (entries t'))" "length (entries t') = 2"
      by (simp_all add: ht_wf_def eff_base_def)
    have "trapped h t' k3"
      using cov fr t' cap t2(7) np by (intro full_trapped) (simp_all add: eff_base_def)
    then have "ht_insert_loop h t' (ht_entry_init k3 v3) (h k3 (capacity t') 0) 1 = None"
      by (rule insert_loop_trapped_start)
    with c2 t2(3) t'(1) Suc show ?thesis by (simp add: insert_splits(1))
  qed
  show ?thesis
    apply (rule exI [of _ t2])
    using t1(1) t2(1,2) c2(1) fr hang by (simp add: t0_def)
qed

theorem insert_never_returns_on_full_table_witness:
  "next_prime 1 = 2 \<and> next_prime 2 = 2 \<and> probe_covers h_linear 2 \<and>
   distinct [''a'', ''b'', ''c''] \<and>
   (\<exists>t. and_then (ht_insert h_linear next_prime 0 (ht_init next_prime 1) ''a'' (Some (1::nat)))
              (\<lambda>t. ht_insert h_linear next_prime 0 t ''b'' (Some 2)) = Some (Inr t) \<and>
        capacity t = 2 \<and> count t = 2 \<and> ''c'' \<notin> key ` entry_set t \<and>
        (\<forall>m. ht_insert h_linear next_prime m t ''c'' (Some 3) = None) \<and>
        (\<forall>m. and_then (ht_insert h_linear next_prime m t ''c'' (Some 3))
                (\<lambda>t'. ht_get h_linear t' ''c'') = None))"
proof -
  have c: "probe_covers h_linear 2" by (simp add: h_linear_covers)
  have d: "distinct [''a'', ''b'', ''c'']" by simp
  from insert_never_returns_on_full_table [OF np1 c d, of 0 "Some (1::nat)" "Some 2" "Some 3"]
    np1 c d
  show ?thesis by (intro conjI)
qed

text \<open>
  Claim C5 (deletion), as the code has it on a table that the entry points fill. When the
  sizer returns 3 for 3, \<^verbatim>\<open>ht_init (3)\<close> has three cells and three insertions of distinct
  keys return (the loads they see are 0, 33 and 66) and leave the three cells occupied. The
  deletion of a fourth key, which no cell holds, sees a load of 100, does not shrink the
  table, and walks cells that all hold entries with other keys: it returns under no resize
  budget, and neither do \<^verbatim>\<open>ht_search\<close> and \<^verbatim>\<open>ht_get\<close> for that key. The claim asks for
  the not-found result.
\<close>

theorem delete_absent_never_returns_on_full_table:
  fixes v1 v2 v3 :: "'v option"
  assumes np: "np 3 = 3" and cov: "probe_covers h 3" and ks: "distinct [k1, k2, k3, k]"
  shows "\<exists>t. and_then (and_then (ht_insert h np n (ht_init np 3) k1 v1)
                       (\<lambda>t. ht_insert h np n t k2 v2))
               (\<lambda>t. ht_insert h np n t k3 v3) = Some (Inr t) \<and>
             capacity t = 3 \<and> count t = 3 \<and> k \<notin> key ` entry_set t \<and>
             (\<forall>m. ht_delete h np m t k = None) \<and>
             ht_search h t k = None \<and> ht_get h t k = None"
proof -
  let ?e1 = "ht_entry_init k1 v1" and ?e2 = "ht_entry_init k2 v2" and ?e3 = "ht_entry_init k3 v3"
  define t0 :: "'v hash_table" where "t0 = ht_init np 3"
  have t0: "capacity t0 = 3" "base_capacity t0 = 3" "ht_wf t0" "reachable h t0"
    "entry_set t0 = {}" "occupied t0 = 0"
    using np by (simp_all add: t0_def eff_base_def ht_wf_init reachable_init)
  have len: "ht_wf t \<Longrightarrow> capacity t = 3 \<Longrightarrow>
      length (entries t) = 3 \<and> count t = int (occupied t) \<and>
      load t = int (occupied t) * 100 sdiv 3"
    for t :: "'v hash_table"
    using load_wf [of t] by (simp add: ht_wf_def)
  from insert_fresh_step [of t0 h k1 np n v1] t0 cov len [of t0]
  obtain t1 where t1: "ht_insert h np n t0 k1 v1 = Some (Inr t1)"
    "capacity t1 = 3" "base_capacity t1 = 3" "ht_wf t1" "reachable h t1"
    "entry_set t1 = {?e1}" "occupied t1 = 1"
    by auto
  from insert_fresh_step [of t1 h k2 np n v2] t1 cov len [of t1] ks
  obtain t2 where t2: "ht_insert h np n t1 k2 v2 = Some (Inr t2)"
    "capacity t2 = 3" "base_capacity t2 = 3" "ht_wf t2" "reachable h t2"
    "entry_set t2 = {?e2, ?e1}" "occupied t2 = 2"
    by auto
  from insert_fresh_step [of t2 h k3 np n v3] t2 cov len [of t2] ks
  obtain t3 where t3: "ht_insert h np n t2 k3 v3 = Some (Inr t3)"
    "capacity t3 = 3" "base_capacity t3 = 3" "ht_wf t3" "reachable h t3"
    "entry_set t3 = {?e3, ?e2, ?e1}" "occupied t3 = 3"
    by auto
  have c3: "count t3 = 3" "load t3 = 100" "length (entries t3) = 3"
    using len [of t3] t3 by simp_all
  have fr: "k \<notin> key ` entry_set t3" using t3(6) ks by auto
  have tr: "trapped h t3 k"
    using cov fr t3 c3 by (intro full_trapped) simp_all
  have del: "ht_delete h np m t3 k = None" for m
    using tr by (rule delete_trapped) (simp_all add: c3 t3)
  show ?thesis
    apply (rule exI [of _ t3])
    using t1(1) t2(1) t3(1,2) c3(1) fr del search_trapped [OF tr] get_trapped [OF tr]
    by (simp add: t0_def)
qed

theorem delete_absent_never_returns_on_full_table_witness:
  "next_prime 3 = 3 \<and> probe_covers h_linear 3 \<and> distinct [''a'', ''b'', ''c'', ''d''] \<and>
   (\<exists>t. and_then (and_then
               (ht_insert h_linear next_prime 0 (ht_init next_prime 3) ''a'' (Some (1::nat)))
               (\<lambda>t. ht_insert h_linear next_prime 0 t ''b'' (Some 2)))
             (\<lambda>t. ht_insert h_linear next_prime 0 t ''c'' (Some 3)) = Some (Inr t) \<and>
        capacity t = 3 \<and> count t = 3 \<and> ''d'' \<notin> key ` entry_set t \<and>
        (\<forall>m. ht_delete h_linear next_prime m t ''d'' = None) \<and>
        ht_search h_linear t ''d'' = None \<and> ht_get h_linear t ''d'' = None)"
proof -
  have c: "probe_covers h_linear 3" by (simp add: h_linear_covers)
  have d: "distinct [''a'', ''b'', ''c'', ''d'']" by simp
  from delete_absent_never_returns_on_full_table
    [where np = next_prime and h = h_linear and n = 0 and ?v1.0 = "Some (1::nat)"
      and ?v2.0 = "Some 2" and ?v3.0 = "Some 3", OF np3 c d] np3 c d
  show ?thesis by (intro conjI)
qed

text \<open>
  Claim C6 (resize preserves membership), as the code has it on a table that holds a key
  twice. Six calls of the entry points, the first four of them the calls of claim C3, leave a
  table of count 4 in which \<open>f\<close> is held by cell 2 with value 3, inserted last, and by
  cell 3 with value 2; \<^verbatim>\<open>ht_get\<close> returns 3. The grow-resize (\<^verbatim>\<open>ht_resize_up\<close>, which
  the next insertion starts at this load of 80) inserts the entries cell by cell into the
  new table, where the second entry of \<open>f\<close> overwrites the first: the count is 3 and
  \<^verbatim>\<open>ht_get\<close> returns 2. The last part is the same through \<^verbatim>\<open>ht_insert\<close>. The claim asks
  for the same value and an unchanged count.
\<close>

theorem resize_merges_duplicate_key:
  "and_then (and_then (and_then (and_then (and_then
      (ht_insert h_linear next_prime 1 (ht_init next_prime 4) ''a'' (Some (1::nat)))
      (\<lambda>t. ht_insert h_linear next_prime 1 t ''f'' (Some 2)))
      (\<lambda>t. ht_delete h_linear next_prime 1 t ''a''))
      (\<lambda>(t, r). ht_insert h_linear next_prime 1 t ''f'' (Some 3)))
      (\<lambda>t. ht_insert h_linear next_prime 1 t ''b'' (Some 4)))
      (\<lambda>t. ht_insert h_linear next_prime 1 t ''c'' (Some 5)) =
     Some (Inr \<lparr>capacity = 5, base_capacity = 4, count = 4,
                entries = [Entry \<lparr>key = ''c'', val = Some 5\<rparr>, Null,
                           Entry \<lparr>key = ''f'', val = Some 3\<rparr>,
                           Entry \<lparr>key = ''f'', val = Some 2\<rparr>,
                           Entry \<lparr>key = ''b'', val = Some 4\<rparr>]\<rparr>) \<and>
   ht_get h_linear
     \<lparr>capacity = 5, base_capacity = 4, count = 4,
      entries = [Entry \<lparr>key = ''c'', val = Some (5::nat)\<rparr>, Null,
                 Entry \<lparr>key = ''f'', val = Some 3\<rparr>,
                 Entry \<lparr>key = ''f'', val = Some 2\<rparr>,
                 Entry \<lparr>key = ''b'', val = Some 4\<rparr>]\<rparr> ''f'' = Some (Inr (Some 3)) \<and>
   ht_resize_up h_linear next_prime 1
     \<lparr>capacity = 5, base_capacity = 4, count = 4,
      entries = [Entry \<lparr>key = ''c'', val = Some (5::nat)\<rparr>, Null,
                 Entry \<lparr>key = ''f'', val = Some 3\<rparr>,
                 Entry \<lparr>key = ''f'', val = Some 2\<rparr>,
                 Entry \<lparr>key = ''b'', val = Some 4\<rparr>]\<rparr> =
     Some (Inr \<lparr>capacity = 11, base_capacity = 8, count = 3,
                entries = [Entry \<lparr>key = ''c'', val = Some 5\<rparr>, Null, Null,
                           Entry \<lparr>key = ''f'', val = Some 2\<rparr>, Null, Null, Null, Null,
                           Null, Null, Entry \<lparr>key = ''b'', val = Some 4\<rparr>]\<rparr>) \<and>
   ht_get h_linear
     \<lparr>capacity = 11, base_capacity = 8, count = 3,
      entries = [Entry \<lparr>key = ''c'', val = Some (5::nat)\<rparr>, Null, Null,
                 Entry \<lparr>key = ''f'', val = Some 2\<rparr>, Null, Null, Null, Null,
                 Null, Null, Entry \<lparr>key = ''b'', val = Some 4\<rparr>]\<rparr> ''f'' = Some (Inr (Some 2)) \<and>
   ht_insert h_linear next_prime 1
     \<lparr>capacity = 5, base_capacity = 4, count = 4,
      entries = [Entry \<lparr>key = ''c'', val = Some (5::nat)\<rparr>, Null,
                 Entry \<lparr>key = ''f'', val = Some 3\<rparr>,
                 Entry \<lparr>key = ''f'', val = Some 2\<rparr>,
                 Entry \<lparr>key = ''b'', val = Some 4\<rparr>]\<rparr> ''d'' (Some 6) =
     Some (Inr \<lparr>capacity = 11, base_capacity = 8, count = 4,
                entries = [Entry \<lparr>key = ''c'', val = Some 5\<rparr>,
                           Entry \<lparr>key = ''d'', val = Some 6\<rparr>, Null,
                           Entry \<lparr>key = ''f'', val = Some 2\<rparr>, Null, Null, Null, Null,
                           Null, Null, Entry \<lparr>key = ''b'', val = Some 4\<rparr>]\<rparr>)"
  by code_simp



text \<open>
  Claim C8 (overwrite), as the code has it on a table that holds a key twice. Five calls of
  the entry points, the first four of them the calls of claim C3, leave a table of count 3
  that holds \<open>f\<close> in two cells. The insertion of \<open>c\<close> makes the count 4. A second
  insertion of \<open>c\<close>, with another value, sees a load of 80 and rebuilds the table before
  it walks; the rebuild turns the two entries of \<open>f\<close> into one, and the entry of \<open>c\<close>
  is overwritten in the new table: the count is 3. The claim asks for an unchanged count.
\<close>

theorem second_insert_changes_count:
  "and_then (and_then (and_then (and_then
      (ht_insert h_linear next_prime 1 (ht_init next_prime 4) ''a'' (Some (1::nat)))
      (\<lambda>t. ht_insert h_linear next_prime 1 t ''f'' (Some 2)))
      (\<lambda>t. ht_delete h_linear next_prime 1 t ''a''))
      (\<lambda>(t, r). ht_insert h_linear next_prime 1 t ''f'' (Some 3)))
      (\<lambda>t. ht_insert h_linear next_prime 1 t ''b'' (Some 4)) =
     Some (Inr \<lparr>capacity = 5, base_capacity = 4, count = 3,
                entries = [Null, Null,
                           Entry \<lparr>key = ''f'', val = Some 3\<rparr>,
                           Entry \<lparr>key = ''f'', val = Some 2\<rparr>,
                           Entry \<lparr>key = ''b'', val = Some 4\<rparr>]\<rparr>) \<and>
   ht_insert h_linear next_prime 1
     \<lparr>capacity = 5, base_capacity = 4, count = 3,
      entries = [Null, Null,
                 Entry \<lparr>key = ''f'', val = Some (3::nat)\<rparr>,
                 Entry \<lparr>key = ''f'', val = Some 2\<rparr>,
                 Entry \<lparr>key = ''b'', val = Some 4\<rparr>]\<rparr> ''c'' (Some 5) =
     Some (Inr \<lparr>capacity = 5, base_capacity = 4, count = 4,
                entries = [Entry \<lparr>key = ''c'', val = Some 5\<rparr>, Null,
                           Entry \<lparr>key = ''f'', val = Some 3\<rparr>,
                           Entry \<lparr>key = ''f'', val = Some 2\<rparr>,
                           Entry \<lparr>key = ''b'', val = Some 4\<rparr>]\<rparr>) \<and>
   ht_insert h_linear next_prime 1
     \<lparr>capacity = 5, base_capacity = 4, count = 4,
      entries = [Entry \<lparr>key = ''c'', val = Some (5::nat)\<rparr>, Null,
                 Entry \<lparr>key = ''f'', val = Some 3\<rparr>,
                 Entry \<lparr>key = ''f'', val = Some 2\<rparr>,
                 Entry \<lparr>key = ''b'', val = Some 4\<rparr>]\<rparr> ''c'' (Some 6) =
     Some (Inr \<lparr>capacity = 11, base_capacity = 8, count = 3,
                entries = [Entry \<lparr>key = ''c'', val = Some 6\<rparr>, Null, Null,
                           Entry \<lparr>key = ''f'', val = Some 2\<rparr>, Null, Null, Null, Null,
                           Null, Null, Entry \<lparr>key = ''b'', val = Some 4\<rparr>]\<rparr>)"
  by code_simp

text \<open>
  Claim C9 (get on absent keys) fails in one direction: a key inserted with a null value is
  found by \<^verbatim>\<open>ht_search\<close>, and \<^verbatim>\<open>ht_get\<close> returns the null pointer for it.
\<close>

theorem get_null_counterexample:
  "ht_insert h_linear next_prime 0 (ht_init next_prime 4) ''a'' (None :: nat option) =
     Some (Inr \<lparr>capacity = 5, base_capacity = 4, count = 1,
                entries = [Null, Null, Entry \<lparr>key = ''a'', val = None\<rparr>, Null, Null]\<rparr>) \<and>
   ht_search h_linear
       \<lparr>capacity = 5, base_capacity = 4, count = 1,
        entries = [Null, Null, Entry \<lparr>key = ''a'', val = (None :: nat option)\<rparr>, Null, Null]\<rparr>
       ''a'' = Some (Inr (Some \<lparr>key = ''a'', val = None\<rparr>)) \<and>
   ht_get h_linear
       \<lparr>capacity = 5, base_capacity = 4, count = 1,
        entries = [Null, Null, Entry \<lparr>key = ''a'', val = (None :: nat option)\<rparr>, Null, Null]\<rparr>
       ''a'' = Some (Inr None)"
  by code_simp

text \<open>
  Claim C9, amended: \<^verbatim>\<open>ht_get\<close> returns, faults or runs forever exactly as
  \<^verbatim>\<open>ht_search\<close> does, and it returns the null pointer exactly when the search finds
  nothing or finds an entry whose value is the null pointer.
\<close>

theorem get_null_iff:
  "(ht_get h ht k = None \<longleftrightarrow> ht_search h ht k = None) \<and>
   (ht_get h ht k = Some (Inl f) \<longleftrightarrow> ht_search h ht k = Some (Inl f)) \<and>
   (ht_get h ht k = Some (Inr None) \<longleftrightarrow>
      ht_search h ht k = Some (Inr None) \<or>
      (\<exists>r. ht_search h ht k = Some (Inr (Some r)) \<and> val r = None))"
  by (auto simp: ht_get_def split: option.splits sum.splits)

text \<open>
  Claim C10 (shrink at base capacity 1). For a table of base capacity 1 whose load is below 10,
  \<^verbatim>\<open>ht_resize_down\<close> is \<^verbatim>\<open>ht_resize\<close> with base 0, and a delete, which starts with
  that resize, leaves a table of base capacity 50 whose capacity is the sizer's result for 50.
\<close>

theorem shrink_from_base_one:
  fixes ht :: "'v hash_table"
  assumes "base_capacity ht = 1" and "(count ht * 100) sdiv capacity ht < 10"
    and "ht_wf ht" and "delete_ready h np ht"
  shows "ht_resize_down h np (Suc n) ht = ht_resize h np (Suc n) ht 0 \<and>
         (\<exists>ht' r. ht_delete h np (Suc n) ht k = Some (Inr (ht', r)) \<and>
                  base_capacity ht' = 50 \<and> capacity ht' = np 50)"
proof -
  have half: "base_capacity ht sdiv 2 = 0" using assms(1) by simp
  from assms(3,4) have "0 \<le> count ht" "0 < capacity ht"
    by (simp_all add: ht_wf_def delete_ready_def)
  from load_le [OF this] assms(2) have low: "load ht < 10" by simp
  from delete_walk [OF assms(3,4), of n k] low obtain ht1 a where
    ht1: "capacity ht1 = np (eff_base (base_capacity ht sdiv 2))"
      "base_capacity ht1 = eff_base (base_capacity ht sdiv 2)"
    and del: "ht_delete h np (Suc n) ht k = Some (Inr (ht_unput ht1 (nat (cell h ht1 k a))))"
    by auto
  let ?r = "ht_unput ht1 (nat (cell h ht1 k a))"
  have "ht_delete h np (Suc n) ht k = Some (Inr (fst ?r, snd ?r))" using del by simp
  moreover have "base_capacity (fst ?r) = 50" "capacity (fst ?r) = np 50"
    using ht1 half by (simp_all add: eff_base_def HT_DEFAULT_CAPACITY_def)
  ultimately show ?thesis using half
    by (intro conjI exI [of _ "fst ?r"] exI [of _ "snd ?r"]) (simp_all add: ht_resize_down_def)
qed

theorem shrink_from_base_one_witness:
  "base_capacity (ht_init next_prime 1 :: nat hash_table) = 1 \<and>
   (count (ht_init next_prime 1 :: nat hash_table) * 100) sdiv
     capacity (ht_init next_prime 1 :: nat hash_table) < 10 \<and>
   ht_wf (ht_init next_prime 1 :: nat hash_table) \<and>
   delete_ready h_linear next_prime (ht_init next_prime 1 :: nat hash_table) \<and>
   ht_resize_down h_linear next_prime (Suc 0) (ht_init next_prime 1 :: nat hash_table) =
     ht_resize h_linear next_prime (Suc 0) (ht_init next_prime 1) 0 \<and>
   (\<exists>ht' r. ht_delete h_linear next_prime (Suc 0) (ht_init next_prime 1 :: nat hash_table) ''a'' =
              Some (Inr (ht', r)) \<and>
            base_capacity ht' = 50 \<and> capacity ht' = 53)"
proof -
  let ?t = "ht_init next_prime 1 :: nat hash_table"
  have b: "base_capacity ?t = 1" by (simp add: eff_base_def)
  have l: "(count ?t * 100) sdiv capacity ?t < 10" by simp
  have wf: "ht_wf ?t" by (rule ht_wf_init) (simp add: eff_base_def np1)
  have rr: "resize_ready h_linear next_prime ?t 0"
    by (simp add: resize_ready_def eff_base_def HT_DEFAULT_CAPACITY_def np50 np1 h_linear_covers
        keys_distinct_def signed_divide_int_def)
  have dr: "delete_ready h_linear next_prime ?t"
    using rr by (simp add: delete_ready_def walk_ready_def eff_base_def HT_DEFAULT_CAPACITY_def np50 np1)
  from shrink_from_base_one [OF b l wf dr, of 0 "''a''"] b l wf dr
  show ?thesis by (simp add: np50)
qed

end
